theory Spec2Isabelle
  imports Main "HOL-Library.AList" "HOL-Library.Sublist"
begin

section \<open>JavaScript values\<close>

text \<open>
  The server is a Node.js program. A JavaScript string is modelled as a \<open>string\<close> whose
  characters are the code units below 256. A value that is a string, \<open>null\<close> or
  \<open>undefined\<close> is a \<open>string option\<close>. In a condition such a value counts as true when it
  is a non-empty string, so \<open>v || d\<close> is \<open>d\<close> when \<open>v\<close> is missing or empty.
\<close>

definition truthy :: "string option \<Rightarrow> bool" where
  "truthy v = (case v of None \<Rightarrow> False | Some x \<Rightarrow> x \<noteq> [])"

definition or_default :: "string option \<Rightarrow> string \<Rightarrow> string" where
  "or_default v d = (case v of None \<Rightarrow> d | Some x \<Rightarrow> if x = [] then d else x)"

text \<open>
  A \<open>Map\<close> keeps its keys in insertion order: \<open>get\<close> is \<open>map_of\<close>, \<open>set\<close> is
  \<open>AList.update\<close> (in place for a key already there, at the end for a new one),
  \<open>delete\<close> is \<open>AList.delete\<close>, \<open>size\<close> is \<open>length\<close> and \<open>clear\<close> gives \<open>[]\<close>.
\<close>

type_synonym 'a js_map = "(string \<times> 'a) list"

section \<open>The two caches\<close>

text \<open>
  A cache entry is \<open>{ url, timestamp }\<close> in \<open>streamUrlCache\<close> and \<open>{ info, timestamp }\<close> in
  \<open>videoInfoCache\<close>; the field \<open>content\<close> stands for \<open>url\<close> and for \<open>info\<close>. Times are the
  integers \<open>Date.now()\<close> returns, in milliseconds.
\<close>

record 'a cached =
  content :: 'a
  timestamp :: int

record videoInfo =
  videoId :: string
  title :: string
  channelName :: string
  thumbnail :: string
  duration :: nat

definition STREAM_CACHE_TTL_MS :: int where
  "STREAM_CACHE_TTL_MS = 3 * 60 * 60 * 1000"

definition INFO_CACHE_TTL_MS :: int where
  "INFO_CACHE_TTL_MS = 24 * 60 * 60 * 1000"

text \<open>
  The process-wide state. \<open>pendingStreamRequests\<close> maps an identifier to the promise of the
  extraction in flight for it. A promise is named by its position in \<open>promises\<close>, which
  records, for every promise \<open>fetchStreamUrl\<close> ever created, the identifier it was created
  for and its outcome once settled (\<open>None\<close> while \<open>ytdl.getInfo\<close> is still awaited).
\<close>

record error =
  name :: string
  message :: string
  stack :: string

type_synonym outcome = "error + string"

record server =
  streamUrlCache :: "string cached js_map"
  videoInfoCache :: "videoInfo cached js_map"
  pendingStreamRequests :: "nat js_map"
  promises :: "(string \<times> outcome option) list"

definition getCachedStreamUrl :: "int \<Rightarrow> string \<Rightarrow> server \<Rightarrow> string option \<times> server" where
  "getCachedStreamUrl now vid s =
     (case map_of (streamUrlCache s) vid of
        None \<Rightarrow> (None, s)
      | Some c \<Rightarrow>
          if now - timestamp c > STREAM_CACHE_TTL_MS
          then (None, s\<lparr>streamUrlCache := AList.delete vid (streamUrlCache s)\<rparr>)
          else (Some (content c), s))"

definition setCachedStreamUrl :: "int \<Rightarrow> string \<Rightarrow> string \<Rightarrow> server \<Rightarrow> server" where
  "setCachedStreamUrl now vid u s =
     s\<lparr>streamUrlCache :=
         AList.update vid \<lparr>content = u, timestamp = now\<rparr> (streamUrlCache s)\<rparr>"

definition getCachedVideoInfo :: "int \<Rightarrow> string \<Rightarrow> server \<Rightarrow> videoInfo option \<times> server" where
  "getCachedVideoInfo now vid s =
     (case map_of (videoInfoCache s) vid of
        None \<Rightarrow> (None, s)
      | Some c \<Rightarrow>
          if now - timestamp c > INFO_CACHE_TTL_MS
          then (None, s\<lparr>videoInfoCache := AList.delete vid (videoInfoCache s)\<rparr>)
          else (Some (content c), s))"

definition setCachedVideoInfo :: "int \<Rightarrow> string \<Rightarrow> videoInfo \<Rightarrow> server \<Rightarrow> server" where
  "setCachedVideoInfo now vid i s =
     s\<lparr>videoInfoCache :=
         AList.update vid \<lparr>content = i, timestamp = now\<rparr> (videoInfoCache s)\<rparr>"

text \<open>The server as the process starts it: both caches and the pending map are empty.\<close>

definition initial :: server where
  "initial = \<lparr>streamUrlCache = [], videoInfoCache = [], pendingStreamRequests = [],
              promises = []\<rparr>"

section \<open>Stream resolution\<close>

text \<open>
  A format as \<open>ytdl.getInfo\<close> reports it. Of these fields this server reads \<open>url\<close> and
  \<open>audioBitrate\<close>; \<open>hasVideo\<close> and \<open>hasAudio\<close> are what the library's \<open>audioonly\<close> filter
  reads. The other fields are carried along and never looked at.
\<close>

record format =
  url :: "string option"
  mimeType :: string
  container :: string
  audioBitrate :: "nat option"
  contentLength :: "string option"
  isHLS :: bool
  isDashMPD :: bool
  hasVideo :: bool
  hasAudio :: bool

text \<open>
  \<open>ytdl.filterFormats(formats, 'audioonly')\<close> belongs to the extraction library: it keeps,
  in order, the formats that have a URL, no video and audio.
\<close>

definition filterFormats_audioonly :: "format list \<Rightarrow> format list" where
  "filterFormats_audioonly formats =
     filter (\<lambda>f. truthy (url f) \<and> \<not> hasVideo f \<and> hasAudio f) formats"

text \<open>\<open>new Error(msg)\<close>; the stack is the header line, the frames are left out.\<close>

definition newError :: "string \<Rightarrow> error" where
  "newError msg = \<lparr>name = ''Error'', message = msg, stack = ''Error: '' @ msg\<rparr>"

text \<open>The callback of \<open>audioFormats.reduce\<close>: \<open>x.audioBitrate || 0\<close> is \<open>0\<close> when missing.\<close>

definition bitrateOrZero :: "format \<Rightarrow> nat" where
  "bitrateOrZero f = (case audioBitrate f of None \<Rightarrow> 0 | Some b \<Rightarrow> b)"

definition higherBitrate :: "format \<Rightarrow> format \<Rightarrow> format" where
  "higherBitrate best f =
     (let bestBitrate = bitrateOrZero best; currentBitrate = bitrateOrZero f
      in if currentBitrate > bestBitrate then f else best)"

text \<open>
  The selection inside \<open>fetchStreamUrl\<close>: filter, fail when nothing is left, reduce from
  \<open>audioFormats[0]\<close>.
\<close>

definition bestAudioFormat :: "format list \<Rightarrow> error + format" where
  "bestAudioFormat formats =
     (let audioFormats = filterFormats_audioonly formats
      in case audioFormats of
           [] \<Rightarrow> Inl (newError ''No audio formats found'')
         | first # _ \<Rightarrow> Inr (foldl higherBitrate first audioFormats))"

text \<open>
  What the promise of \<open>fetchStreamUrl\<close> settles with once \<open>ytdl.getInfo\<close> has settled with
  \<open>r\<close> (a rejection, or the formats of the info), and whether the URL is cached.
\<close>

definition streamOutcome :: "error + format list \<Rightarrow> outcome" where
  "streamOutcome r =
     (case r of
        Inl e \<Rightarrow> Inl e
      | Inr formats \<Rightarrow>
          (case bestAudioFormat formats of
             Inl e \<Rightarrow> Inl e
           | Inr bestAudio \<Rightarrow>
               (case url bestAudio of
                  None \<Rightarrow> Inl (newError ''No stream URL found'')
                | Some directUrl \<Rightarrow>
                    if directUrl = [] then Inl (newError ''No stream URL found'')
                    else Inr directUrl)))"

text \<open>
  What a call of \<open>fetchStreamUrl\<close> hands back: the cached URL, or a promise (the pending
  one, or the one just created).
\<close>

datatype fetched = Cached string | Promise nat

text \<open>
  The synchronous part of \<open>fetchStreamUrl(videoId)\<close>, run at time \<open>now\<close>: the cache, then
  the pending map, then a new promise whose body calls \<open>ytdl.getInfo\<close> and is suspended at
  that \<open>await\<close>; the promise is registered as pending.
\<close>

definition fetchStreamUrl :: "int \<Rightarrow> string \<Rightarrow> server \<Rightarrow> fetched \<times> server" where
  "fetchStreamUrl now vid s =
     (let (cached, s1) = getCachedStreamUrl now vid s
      in if truthy cached then (Cached (the cached), s1)
         else (case map_of (pendingStreamRequests s1) vid of
                 Some p \<Rightarrow> (Promise p, s1)
               | None \<Rightarrow>
                   (let p = length (promises s1)
                    in (Promise p,
                        s1\<lparr>promises := promises s1 @ [(vid, None)],
                           pendingStreamRequests :=
                             AList.update vid p (pendingStreamRequests s1)\<rparr>))))"

text \<open>
  The rest of the promise's body, run at time \<open>now\<close> when \<open>ytdl.getInfo\<close> of promise \<open>p\<close>
  settles with \<open>r\<close>: on success the URL is cached; in every case the \<open>finally\<close> block
  deletes the pending entry. A promise settles once, so the event does nothing for a
  promise that does not exist or has settled.
\<close>

definition getInfoSettles :: "int \<Rightarrow> nat \<Rightarrow> error + format list \<Rightarrow> server \<Rightarrow> server" where
  "getInfoSettles now p r s =
     (if p < length (promises s) \<and> snd (promises s ! p) = None
      then (let vid = fst (promises s ! p);
                result = streamOutcome r;
                s1 = (case result of
                        Inl e \<Rightarrow> s
                      | Inr directUrl \<Rightarrow> setCachedStreamUrl now vid directUrl s)
            in s1\<lparr>pendingStreamRequests := AList.delete vid (pendingStreamRequests s1),
                  promises := (promises s1)[p := (vid, Some result)]\<rparr>)
      else s)"

text \<open>What a caller that awaits the value of \<open>fetchStreamUrl\<close> sees, if it has settled.\<close>

definition await :: "server \<Rightarrow> fetched \<Rightarrow> outcome option" where
  "await s f =
     (case f of
        Cached u \<Rightarrow> Some (Inr u)
      | Promise p \<Rightarrow> if p < length (promises s) then snd (promises s ! p) else None)"

text \<open>\<open>POST /api/cache/clear\<close> and the periodic cleanup.\<close>

definition cacheClear :: "server \<Rightarrow> server" where
  "cacheClear s = s\<lparr>streamUrlCache := [], videoInfoCache := []\<rparr>"

definition cacheCleanup :: "int \<Rightarrow> server \<Rightarrow> server" where
  "cacheCleanup now s =
     s\<lparr>streamUrlCache :=
         filter (\<lambda>kv. \<not> now - timestamp (snd kv) > STREAM_CACHE_TTL_MS) (streamUrlCache s),
       videoInfoCache :=
         filter (\<lambda>kv. \<not> now - timestamp (snd kv) > INFO_CACHE_TTL_MS) (videoInfoCache s)\<rparr>"

text \<open>
  Node runs one callback at a time, so a run of the server is a sequence of events, each
  run to its next \<open>await\<close>.
\<close>

datatype event =
    FetchStreamUrl int string
  | GetInfoSettles int nat "error + format list"
  | GetCachedStreamUrl int string
  | SetCachedVideoInfo int string videoInfo
  | GetCachedVideoInfo int string
  | CacheClear
  | CacheCleanup int

fun step :: "event \<Rightarrow> server \<Rightarrow> server" where
  "step (FetchStreamUrl now vid) s = snd (fetchStreamUrl now vid s)"
| "step (GetInfoSettles now p r) s = getInfoSettles now p r s"
| "step (GetCachedStreamUrl now vid) s = snd (getCachedStreamUrl now vid s)"
| "step (SetCachedVideoInfo now vid i) s = setCachedVideoInfo now vid i s"
| "step (GetCachedVideoInfo now vid) s = snd (getCachedVideoInfo now vid s)"
| "step CacheClear s = cacheClear s"
| "step (CacheCleanup now) s = cacheCleanup now s"

definition run :: "event list \<Rightarrow> server" where
  "run evs = fold step evs initial"

text \<open>The promises of identifier \<open>vid\<close> whose extraction is in flight, and all its extractions.\<close>

definition inFlight :: "server \<Rightarrow> string \<Rightarrow> nat list" where
  "inFlight s vid = filter (\<lambda>p. promises s ! p = (vid, None)) [0..<length (promises s)]"

definition extractions :: "server \<Rightarrow> string \<Rightarrow> nat" where
  "extractions s vid = length (filter (\<lambda>pr. fst pr = vid) (promises s))"

text \<open>\<open>n\<close> calls of \<open>fetchStreamUrl(videoId)\<close> in a row, at the times \<open>ts\<close>.\<close>

fun fetchAll :: "int list \<Rightarrow> string \<Rightarrow> server \<Rightarrow> fetched list \<times> server" where
  "fetchAll [] vid s = ([], s)"
| "fetchAll (t # ts) vid s =
     (let (f, s1) = fetchStreamUrl t vid s; (fs, s2) = fetchAll ts vid s1
      in (f # fs, s2))"

section \<open>The identifier normalizer\<close>

text \<open>The pattern \<open>/^[a-zA-Z0-9_-]{11}$/\<close>.\<close>

definition idChars :: string where
  "idChars = ''abcdefghijklmnopqrstuvwxyzABCDEFGHIJKLMNOPQRSTUVWXYZ0123456789_-''"

definition idChar :: "char \<Rightarrow> bool" where
  "idChar c = (c \<in> set idChars)"

definition matchesId :: "string \<Rightarrow> bool" where
  "matchesId x = (length x = 11 \<and> list_all idChar x)"

text \<open>
  \<open>String.prototype.trim\<close>: the white space and line terminators below 256 are tab, line
  feed, vertical tab, form feed, carriage return, space and no-break space.
\<close>

definition jsWhiteSpace :: "char \<Rightarrow> bool" where
  "jsWhiteSpace c = (of_char c \<in> set [9, 10, 11, 12, 13, 32, 160 :: nat])"

definition trim :: "string \<Rightarrow> string" where
  "trim x = rev (dropWhile jsWhiteSpace (rev (dropWhile jsWhiteSpace x)))"

text \<open>\<open>String.prototype.split\<close> at every character that satisfies \<open>sep\<close>.\<close>

fun split :: "(char \<Rightarrow> bool) \<Rightarrow> string \<Rightarrow> string list" where
  "split sep [] = [[]]"
| "split sep (c # cs) =
     (if sep c then [] # split sep cs
      else (case split sep cs of [] \<Rightarrow> [[c]] | x # xs \<Rightarrow> (c # x) # xs))"

subsection \<open>The platform's URL parser\<close>

text \<open>
  \<open>new URL(input)\<close> is the platform's: the basic URL parser of the WHATWG URL Standard, run
  without a base URL. \<open>uRL\<close> below follows that parser state by state and keeps what
  \<open>normalizeVideoId\<close> reads: the path and the query. On an input of ASCII characters it
  decides as the standard does whether the parser fails: a missing scheme, a missing
  host, a forbidden code point in the host (after percent-decoding the host of a special
  scheme), an IPv4 or IPv6 literal that does not parse, a port that is not a number or is
  above 65535. Dot segments and the drive letters of \<open>file:\<close> URLs are handled as in the
  path state. Three things are left out. Path segments are not percent-encoded and an
  escaped byte above 127 in the query is kept as one character: either way the segment or
  value has a character outside the identifier alphabet, so \<open>normalizeVideoId\<close> returns
  the same. And the IDNA processing of a host is reduced to lower-casing, which is what it
  does to an ASCII host without an \<open>xn--\<close> label; a host with a character above 127 or
  with such a label is accepted here without that check.
\<close>

record URL =
  pathname :: string
  query :: string

definition asciiAlpha :: "char \<Rightarrow> bool" where
  "asciiAlpha c = (c \<in> set ''abcdefghijklmnopqrstuvwxyzABCDEFGHIJKLMNOPQRSTUVWXYZ'')"

definition asciiDigit :: "char \<Rightarrow> bool" where
  "asciiDigit c = (c \<in> set ''0123456789'')"

definition schemeChar :: "char \<Rightarrow> bool" where
  "schemeChar c = (asciiAlpha c \<or> asciiDigit c \<or> c \<in> set ''+-.'')"

definition asciiLower :: "char \<Rightarrow> char" where
  "asciiLower c =
     (if c \<in> set ''ABCDEFGHIJKLMNOPQRSTUVWXYZ'' then char_of (of_char c + (32::nat)) else c)"

definition c0ControlOrSpace :: "char \<Rightarrow> bool" where
  "c0ControlOrSpace c = (of_char c \<le> (32::nat))"

definition asciiTabOrNewline :: "char \<Rightarrow> bool" where
  "asciiTabOrNewline c = (of_char c \<in> set [9, 10, 13 :: nat])"

definition slash :: "char \<Rightarrow> bool" where
  "slash c = (c = CHR ''/'')"

definition slashOrBackslash :: "char \<Rightarrow> bool" where
  "slashOrBackslash c = (c = CHR ''/'' \<or> of_char c = (92::nat))"

text \<open>Scheme start state and scheme state: the lower-cased scheme and what follows \<open>:\<close>.\<close>

definition parseScheme :: "string \<Rightarrow> (string \<times> string) option" where
  "parseScheme x =
     (case x of
        [] \<Rightarrow> None
      | c # _ \<Rightarrow>
          if \<not> asciiAlpha c then None
          else (case dropWhile schemeChar x of
                  [] \<Rightarrow> None
                | d # rest \<Rightarrow>
                    if d = CHR '':'' then Some (map asciiLower (takeWhile schemeChar x), rest)
                    else None))"

text \<open>
  Path state: dot segments shorten the path; \<open>path\<close> is the path built so far. In a
  \<open>file:\<close> URL a drive letter that starts the path is written with a colon and is not
  removed by a double-dot segment.
\<close>

definition singleDot :: "string \<Rightarrow> bool" where
  "singleDot seg = (map asciiLower seg \<in> set [''.'', ''%2e''])"

definition doubleDot :: "string \<Rightarrow> bool" where
  "doubleDot seg = (map asciiLower seg \<in> set [''..'', ''.%2e'', ''%2e.'', ''%2e%2e''])"

definition driveLetter :: "string \<Rightarrow> bool" where
  "driveLetter x =
     (case x of [a, b] \<Rightarrow> asciiAlpha a \<and> (b = CHR '':'' \<or> b = CHR ''|'') | _ \<Rightarrow> False)"

definition normalizedDriveLetter :: "string \<Rightarrow> bool" where
  "normalizedDriveLetter x = (case x of [a, b] \<Rightarrow> asciiAlpha a \<and> b = CHR '':'' | _ \<Rightarrow> False)"

definition shorten :: "bool \<Rightarrow> string list \<Rightarrow> string list" where
  "shorten file path =
     (if file \<and> length path = 1 \<and> normalizedDriveLetter (hd path) then path else butlast path)"

fun pathState :: "bool \<Rightarrow> string list \<Rightarrow> string list \<Rightarrow> string list" where
  "pathState file [] path = path"
| "pathState file (seg # segs) path =
     (if doubleDot seg
      then pathState file segs (shorten file path @ (if segs = [] then [[]] else []))
      else if singleDot seg
      then pathState file segs (path @ (if segs = [] then [[]] else []))
      else if file \<and> path = [] \<and> driveLetter seg
      then pathState file segs [[hd seg, CHR '':'']]
      else pathState file segs (path @ [seg]))"

definition serializePath :: "string list \<Rightarrow> string" where
  "serializePath path = concat (map (\<lambda>seg. CHR ''/'' # seg) path)"

text \<open>Percent-decoding: \<open>%XX\<close> becomes the byte \<open>XX\<close>.\<close>

definition hexValue :: "char \<Rightarrow> nat option" where
  "hexValue c =
     (let n = of_char c :: nat
      in if 48 \<le> n \<and> n \<le> 57 then Some (n - 48)
         else if 65 \<le> n \<and> n \<le> 70 then Some (n - 55)
         else if 97 \<le> n \<and> n \<le> 102 then Some (n - 87)
         else None)"

fun percentDecode :: "string \<Rightarrow> string" where
  "percentDecode (c # h # l # cs) =
     (if c = CHR ''%''
      then (case (hexValue h, hexValue l) of
              (Some a, Some b) \<Rightarrow> char_of (16 * a + b) # percentDecode cs
            | _ \<Rightarrow> c # percentDecode (h # l # cs))
      else c # percentDecode (h # l # cs))"
| "percentDecode cs = cs"

text \<open>
  The IPv4 parser. A part is a number in radix 16 after \<open>0x\<close>, in radix 8 after another
  leading \<open>0\<close>, else in radix 10. A host ends in a number when its last part (an empty
  last part set aside) is all digits or parses as a number; such a host must be at most
  four numbers, all but the last below 256 and the last below 256 to the power of the
  places left.
\<close>

definition digitIn :: "nat \<Rightarrow> char \<Rightarrow> bool" where
  "digitIn radix c = (case hexValue c of None \<Rightarrow> False | Some v \<Rightarrow> v < radix)"

definition numberIn :: "nat \<Rightarrow> string \<Rightarrow> nat option" where
  "numberIn radix digits =
     (if list_all (digitIn radix) digits
      then Some (foldl (\<lambda>n c. n * radix + the (hexValue c)) 0 digits)
      else None)"

definition ipv4Number :: "string \<Rightarrow> nat option" where
  "ipv4Number x =
     (if x = [] then None
      else if 2 \<le> length x \<and> map asciiLower (take 2 x) = ''0x'' then numberIn 16 (drop 2 x)
      else if 2 \<le> length x \<and> take 1 x = ''0'' then numberIn 8 (drop 1 x)
      else numberIn 10 x)"

definition dot :: "char \<Rightarrow> bool" where
  "dot c = (c = CHR ''.'')"

definition endsInNumber :: "string \<Rightarrow> bool" where
  "endsInNumber x =
     (let parts = split dot x;
          parts' = (if last parts = [] then butlast parts else parts)
      in parts' \<noteq> [] \<and>
         (let l = last parts' in (l \<noteq> [] \<and> list_all asciiDigit l) \<or> ipv4Number l \<noteq> None))"

definition ipv4Ok :: "string \<Rightarrow> bool" where
  "ipv4Ok x =
     (let parts = split dot x;
          parts' = (if last parts = [] \<and> 1 < length parts then butlast parts else parts);
          numbers = map ipv4Number parts'
      in length parts' \<le> 4 \<and>
         list_all (\<lambda>n. n \<noteq> None) numbers \<and>
         list_all (\<lambda>n. the n \<le> 255) (butlast numbers) \<and>
         the (last numbers) < 256 ^ (5 - length numbers))"

text \<open>
  The IPv6 parser, on what stands between the brackets. \<open>ipv6Pieces\<close> is its loop:
  \<open>pieceIndex\<close> counts the pieces read and \<open>compress\<close> says whether \<open>::\<close> has been seen.
  A piece is one to four hexadecimal digits; the address may end in a dotted IPv4
  address of four decimal numbers below 256 without leading zeros, which takes two pieces.
\<close>

definition hexDigit :: "char \<Rightarrow> bool" where
  "hexDigit c = (hexValue c \<noteq> None)"

definition ipv4PieceOk :: "string \<Rightarrow> bool" where
  "ipv4PieceOk x =
     (x \<noteq> [] \<and> list_all asciiDigit x \<and> (length x = 1 \<or> take 1 x \<noteq> ''0'') \<and>
      (case numberIn 10 x of None \<Rightarrow> False | Some n \<Rightarrow> n \<le> 255))"

definition ipv4InIpv6Ok :: "string \<Rightarrow> bool" where
  "ipv4InIpv6Ok x = (length (split dot x) = 4 \<and> list_all ipv4PieceOk (split dot x))"

function ipv6Pieces :: "string \<Rightarrow> nat \<Rightarrow> bool \<Rightarrow> bool" where
  "ipv6Pieces x pieceIndex compress =
     (if x = [] then compress \<or> pieceIndex = 8
      else if pieceIndex = 8 then False
      else if hd x = CHR '':''
      then \<not> compress \<and> ipv6Pieces (tl x) (pieceIndex + 1) True
      else (let digits = takeWhile hexDigit (take 4 x);
                rest = drop (length digits) x
            in if rest = [] then digits \<noteq> [] \<and> (compress \<or> pieceIndex + 1 = 8)
               else if hd rest = CHR ''.''
               then digits \<noteq> [] \<and> pieceIndex \<le> 6 \<and> ipv4InIpv6Ok x \<and>
                    (compress \<or> pieceIndex + 2 = 8)
               else if hd rest = CHR '':''
               then digits \<noteq> [] \<and> tl rest \<noteq> [] \<and> ipv6Pieces (tl rest) (pieceIndex + 1) compress
               else False))"
  by pat_completeness auto
termination
proof (relation "measure (\<lambda>(x, pieceIndex, compress). length x)")
  show "wf (measure (\<lambda>(x, pieceIndex, compress). length x))" by simp
next
  fix x :: string and pieceIndex :: nat and compress :: bool
  assume "x \<noteq> []"
  then show "((tl x, pieceIndex + 1, True), x, pieceIndex, compress)
      \<in> measure (\<lambda>(x, pieceIndex, compress). length x)"
    by (cases x) simp_all
next
  fix x :: string and pieceIndex :: nat and compress :: bool and digits rest :: string
  assume "x \<noteq> []" and "rest = drop (length digits) x" and "rest \<noteq> []"
  then have "length (tl rest) < length x" by (cases rest) (auto dest: arg_cong[where f = length])
  then show "((tl rest, pieceIndex + 1, compress), x, pieceIndex, compress)
      \<in> measure (\<lambda>(x, pieceIndex, compress). length x)"
    by simp
qed

definition ipv6Ok :: "string \<Rightarrow> bool" where
  "ipv6Ok x =
     (if take 1 x = '':''
      then take 2 x = ''::'' \<and> ipv6Pieces (drop 2 x) 1 True
      else ipv6Pieces x 0 False)"

text \<open>
  Authority, host and port states, and the host parser. The authority is what stands
  before the path; its host starts after the last \<open>@\<close> and ends at the first \<open>:\<close> outside
  brackets. The host of a special scheme is percent-decoded and lower-cased before it is
  checked.
\<close>

definition forbiddenHostChar :: "char \<Rightarrow> bool" where
  "forbiddenHostChar c =
     (of_char c \<in> set [0, 9, 10, 13, 32, 92, 94, 124 :: nat] \<or> c \<in> set ''#/:<>?@[]'')"

definition forbiddenDomainChar :: "char \<Rightarrow> bool" where
  "forbiddenDomainChar c =
     (forbiddenHostChar c \<or> of_char c \<le> (31::nat) \<or> c = CHR ''%'' \<or> of_char c = (127::nat))"

definition afterLastAt :: "string \<Rightarrow> string" where
  "afterLastAt authority = rev (takeWhile (\<lambda>c. c \<noteq> CHR ''@'') (rev authority))"

definition hostOf :: "string \<Rightarrow> string" where
  "hostOf hostport =
     (case hostport of
        [] \<Rightarrow> []
      | c # _ \<Rightarrow>
          if c = CHR ''[''
          then takeWhile (\<lambda>d. d \<noteq> CHR '']'') hostport @ take 1 (dropWhile (\<lambda>d. d \<noteq> CHR '']'') hostport)
          else takeWhile (\<lambda>d. d \<noteq> CHR '':'') hostport)"

definition portOk :: "string \<Rightarrow> string \<Rightarrow> bool" where
  "portOk hostport host =
     (case drop (length host) hostport of
        [] \<Rightarrow> True
      | c # port \<Rightarrow>
          c = CHR '':'' \<and>
          (case numberIn 10 port of None \<Rightarrow> False | Some n \<Rightarrow> n \<le> 65535))"

definition domainOk :: "string \<Rightarrow> bool" where
  "domainOk host =
     (let asciiDomain = map asciiLower (percentDecode host)
      in asciiDomain \<noteq> [] \<and>
         \<not> list_ex forbiddenDomainChar asciiDomain \<and>
         (if endsInNumber asciiDomain then ipv4Ok asciiDomain else True))"

definition hostOk :: "bool \<Rightarrow> string \<Rightarrow> bool" where
  "hostOk special host =
     (case host of
        [] \<Rightarrow> \<not> special
      | c # _ \<Rightarrow>
          if c = CHR ''[''
          then last host = CHR '']'' \<and> ipv6Ok (butlast (tl host))
          else if special then domainOk host
          else \<not> list_ex forbiddenHostChar host)"

definition authorityOk :: "bool \<Rightarrow> string \<Rightarrow> bool" where
  "authorityOk special authority =
     (let hostport = afterLastAt authority; host = hostOf hostport
      in \<not> (CHR ''@'' \<in> set authority \<and> hostport = []) \<and>
         \<not> (host = [] \<and> hostport \<noteq> []) \<and>
         hostOk special host \<and> portOk hostport host)"

text \<open>
  The path of a URL after its scheme, for the three kinds of scheme; \<open>hier\<close> is what stands
  between the \<open>:\<close> of the scheme and the query or fragment. \<open>None\<close> is the parser's failure.
\<close>

definition pathAfterAuthority ::
  "(char \<Rightarrow> bool) \<Rightarrow> bool \<Rightarrow> bool \<Rightarrow> string \<Rightarrow> string list" where
  "pathAfterAuthority sep special file rest =
     (case rest of
        [] \<Rightarrow> if special then [[]] else []
      | _ # cs \<Rightarrow> pathState file (split sep cs) [])"

definition specialPath :: "string \<Rightarrow> string option" where
  "specialPath hier =
     (let r = dropWhile slashOrBackslash hier;
          authority = takeWhile (\<lambda>c. \<not> slashOrBackslash c) r;
          rest = dropWhile (\<lambda>c. \<not> slashOrBackslash c) r
      in if authorityOk True authority
         then Some (serializePath (pathAfterAuthority slashOrBackslash True False rest))
         else None)"

definition filePath :: "string \<Rightarrow> string option" where
  "filePath hier =
     (case hier of
        [] \<Rightarrow> Some (serializePath [[]])
      | c # cs \<Rightarrow>
          if \<not> slashOrBackslash c
          then Some (serializePath (pathState True (split slashOrBackslash hier) []))
          else (case cs of
                  [] \<Rightarrow> Some (serializePath [[]])
                | d # ds \<Rightarrow>
                    if \<not> slashOrBackslash d
                    then Some (serializePath (pathState True (split slashOrBackslash cs) []))
                    else (let host = takeWhile (\<lambda>e. \<not> slashOrBackslash e) ds;
                              rest = dropWhile (\<lambda>e. \<not> slashOrBackslash e) ds
                          in if driveLetter host
                             then Some (serializePath
                                          (pathState True (split slashOrBackslash ds) []))
                             else if host = [] \<or> hostOk True host
                             then Some (serializePath
                                          (pathAfterAuthority slashOrBackslash True True rest))
                             else None)))"

definition otherPath :: "string \<Rightarrow> string option" where
  "otherPath hier =
     (case hier of
        [] \<Rightarrow> Some []
      | c # cs \<Rightarrow>
          if c \<noteq> CHR ''/'' then Some hier
          else (case cs of
                  [] \<Rightarrow> Some (serializePath [[]])
                | d # ds \<Rightarrow>
                    if d \<noteq> CHR ''/''
                    then Some (serializePath (pathState False (split slash cs) []))
                    else (let authority = takeWhile (\<lambda>e. e \<noteq> CHR ''/'') ds;
                              rest = dropWhile (\<lambda>e. e \<noteq> CHR ''/'') ds
                          in if authorityOk False authority
                             then Some (serializePath (pathAfterAuthority slash False False rest))
                             else None)))"

definition specialSchemes :: "string list" where
  "specialSchemes = [''http'', ''https'', ''ws'', ''wss'', ''ftp'']"

definition uRL :: "string \<Rightarrow> URL option" where
  "uRL input =
     (let x = filter (\<lambda>c. \<not> asciiTabOrNewline c)
                (rev (dropWhile c0ControlOrSpace (rev (dropWhile c0ControlOrSpace input))))
      in case parseScheme x of
           None \<Rightarrow> None
         | Some (scheme, afterScheme) \<Rightarrow>
             (let beforeFragment = takeWhile (\<lambda>c. c \<noteq> CHR ''#'') afterScheme;
                  hier = takeWhile (\<lambda>c. c \<noteq> CHR ''?'') beforeFragment;
                  q = drop 1 (dropWhile (\<lambda>c. c \<noteq> CHR ''?'') beforeFragment);
                  path = (if scheme = ''file'' then filePath hier
                          else if scheme \<in> set specialSchemes then specialPath hier
                          else otherPath hier)
              in case path of
                   None \<Rightarrow> None
                 | Some pn \<Rightarrow> Some \<lparr>pathname = pn, query = q\<rparr>))"

text \<open>
  \<open>url.searchParams.get(name)\<close>: the query is split at \<open>&\<close>, each non-empty piece at its
  first \<open>=\<close>; \<open>+\<close> becomes a space and the rest is percent-decoded; the first value
  under the name is returned.
\<close>

definition urlDecode :: "string \<Rightarrow> string" where
  "urlDecode x = percentDecode (map (\<lambda>c. if c = CHR ''+'' then CHR '' '' else c) x)"

definition searchParams :: "URL \<Rightarrow> (string \<times> string) list" where
  "searchParams u =
     map (\<lambda>piece. (urlDecode (takeWhile (\<lambda>c. c \<noteq> CHR ''='') piece),
                    urlDecode (drop 1 (dropWhile (\<lambda>c. c \<noteq> CHR ''='') piece))))
       (filter (\<lambda>piece. piece \<noteq> []) (split (\<lambda>c. c = CHR ''&'') (query u)))"

definition searchParams_get :: "URL \<Rightarrow> string \<Rightarrow> string option" where
  "searchParams_get u nm = map_of (searchParams u) nm"

subsection \<open>normalizeVideoId\<close>

text \<open>
  \<open>None\<close> is \<open>null\<close>. \<open>parts[parts.length - 1]\<close> of an empty array is \<open>undefined\<close>, which
  is not a candidate.
\<close>

definition normalizeVideoId :: "string \<Rightarrow> string option" where
  "normalizeVideoId videoIdOrUrl =
     (if videoIdOrUrl = [] then None
      else (let input = trim videoIdOrUrl
            in if matchesId input then Some input
               else (case uRL input of
                       None \<Rightarrow> None
                     | Some u \<Rightarrow>
                         (let v = searchParams_get u ''v''
                          in if truthy v \<and> matchesId (the v) then v
                             else (let parts = filter (\<lambda>part. part \<noteq> [])
                                                 (split slash (pathname u));
                                       candidate =
                                         (if take 1 parts = [''watch''] \<or> parts = [] then None
                                          else Some (last parts))
                                   in if truthy candidate \<and> matchesId (the candidate)
                                      then candidate
                                      else None)))))"

section \<open>The stream endpoints\<close>

text \<open>
  Of a request the handlers read \<open>req.params.videoId\<close> and \<open>req.headers.range\<close>. A
  response is a status, the headers the handler sets and a body; the same record is the
  upstream response \<open>fetch\<close> resolves with, whose header names are lower-case. The fields
  of a JSON body that are \<open>undefined\<close> (\<open>None\<close>) are not serialized.
\<close>

record request =
  params_videoId :: string
  headers_range :: "string option"

datatype body = NoBody | Json "(string \<times> string option) list" | Bytes string

record response =
  status :: nat
  headers :: "(string \<times> string) list"
  body :: body

definition json :: "nat \<Rightarrow> (string \<times> string option) list \<Rightarrow> response" where
  "json code obj = \<lparr>status = code, headers = [], body = Json obj\<rparr>"

text \<open>\<open>String.prototype.includes\<close>.\<close>

fun string_includes :: "string \<Rightarrow> string \<Rightarrow> bool" where
  "string_includes [] sub = (sub = [])"
| "string_includes (c # cs) sub = (prefix sub (c # cs) \<or> string_includes cs sub)"

text \<open>
  \<open>GET /api/stream/:videoId\<close> up to its first \<open>await\<close>: the response for an invalid
  identifier, or the handler suspended on what \<open>fetchStreamUrl\<close> handed back.
\<close>

datatype suspended = Responded response | Awaiting string fetched

definition streamGetStart :: "int \<Rightarrow> request \<Rightarrow> server \<Rightarrow> suspended \<times> server" where
  "streamGetStart now req s =
     (case normalizeVideoId (params_videoId req) of
        None \<Rightarrow>
          (Responded (json 400 [(''error'', Some ''Invalid video ID''),
                                (''videoId'', Some (params_videoId req))]), s)
      | Some vid \<Rightarrow>
          (let (f, s1) = fetchStreamUrl now vid s in (Awaiting vid f, s1)))"

text \<open>The headers of the upstream request.\<close>

definition upstreamHeaders :: "request \<Rightarrow> (string \<times> string) list" where
  "upstreamHeaders req =
     (''User-Agent'', ''Mozilla/5.0 (Windows NT 10.0; Win64; x64) AppleWebKit/537.36'') #
     (if truthy (headers_range req) then [(''Range'', the (headers_range req))] else [])"

text \<open>
  The response built from the upstream one; \<open>pipeline\<close> then copies the upstream body, and
  \<open>res.end()\<close> is called when there is none.
\<close>

definition relay :: "response \<Rightarrow> response" where
  "relay upstream =
     (let get = map_of (headers upstream);
          contentType = or_default (get ''content-type'') ''audio/mp4'';
          contentLength = get ''content-length'';
          contentRange = get ''content-range''
      in \<lparr>status = status upstream,
          headers =
            [(''Cache-Control'', ''public, max-age=7200''),
             (''Accept-Ranges'', or_default (get ''accept-ranges'') ''bytes''),
             (''Content-Type'', contentType)] @
            (if truthy contentLength then [(''Content-Length'', the contentLength)] else []) @
            (if truthy contentRange then [(''Content-Range'', the contentRange)] else []),
          body = body upstream\<rparr>)"

text \<open>
  The \<open>catch\<close> block; \<open>nodeEnv\<close> is \<open>process.env.NODE_ENV\<close>. \<open>None\<close>: nothing is written.
\<close>

definition streamCatch :: "string option \<Rightarrow> bool \<Rightarrow> string \<Rightarrow> error \<Rightarrow> response option" where
  "streamCatch nodeEnv headersSent vid e =
     (if name e = ''AbortError'' then None
      else if headersSent then None
      else (let errorMessage = (if message e = [] then ''Failed to stream audio'' else message e);
                statusCode = (if string_includes errorMessage ''unavailable'' then 404 else 500)
            in Some (json statusCode
                 [(''error'', Some errorMessage),
                  (''videoId'', Some vid),
                  (''suggestion'',
                   Some ''This video may be restricted, unavailable, or require age verification.''),
                  (''details'', if nodeEnv = Some ''development'' then Some (stack e) else None)])))"

text \<open>
  The handler from the moment the awaited \<open>fetchStreamUrl\<close> has settled with \<open>resolved\<close>.
  \<open>fetch\<close> is the platform's: what the upstream request for a URL and headers settles
  with. No header has been sent when either \<open>await\<close> throws.
\<close>

definition streamGetResume ::
  "string option \<Rightarrow> (string \<Rightarrow> (string \<times> string) list \<Rightarrow> error + response) \<Rightarrow>
   request \<Rightarrow> string \<Rightarrow> outcome \<Rightarrow> response option" where
  "streamGetResume nodeEnv fetch req vid resolved =
     (case resolved of
        Inl e \<Rightarrow> streamCatch nodeEnv False vid e
      | Inr directUrl \<Rightarrow>
          (case fetch directUrl (upstreamHeaders req) of
             Inl e \<Rightarrow> streamCatch nodeEnv False vid e
           | Inr upstream \<Rightarrow> Some (relay upstream)))"

text \<open>
  The callback registered with \<open>app.head\<close> for \<open>/api/stream/:videoId\<close>. \<open>t1\<close> is the
  time of its own cache lookup, \<open>t2\<close> the time of the lookup inside the \<open>fetchStreamUrl\<close>
  it starts after the response has ended; what that call hands back is dropped, with a
  \<open>catch\<close> that ignores a rejection.
\<close>

definition streamHeadHandler :: "int \<Rightarrow> int \<Rightarrow> request \<Rightarrow> server \<Rightarrow> response \<times> server" where
  "streamHeadHandler t1 t2 req s =
     (case normalizeVideoId (params_videoId req) of
        None \<Rightarrow> (\<lparr>status = 400, headers = [], body = NoBody\<rparr>, s)
      | Some vid \<Rightarrow>
          (let (cached, s1) = getCachedStreamUrl t1 vid s
           in if truthy cached
              then (\<lparr>status = 200,
                     headers = [(''Content-Type'', ''audio/mp4''), (''Accept-Ranges'', ''bytes''),
                                (''Cache-Control'', ''public, max-age=7200'')],
                     body = NoBody\<rparr>, s1)
              else (\<lparr>status = 200,
                     headers = [(''Accept-Ranges'', ''bytes''),
                                (''Cache-Control'', ''public, max-age=7200'')],
                     body = NoBody\<rparr>, snd (fetchStreamUrl t2 vid s1))))"

subsection \<open>Routing\<close>

text \<open>
  The routes in the order in which the program registers them. Express runs the first
  route whose path matches the request and which handles its method, and a route
  registered with \<open>app.get\<close> handles \<open>HEAD\<close> requests as well as \<open>GET\<close> requests. No
  handler of this program calls \<open>next()\<close>, so that first route answers the request; a
  request that no route takes goes to the 404 handler. A path is the list of its
  segments, written as the routes write them; a segment of a route that starts with \<open>:\<close>
  is a parameter and matches any segment that is not empty.
\<close>

datatype verb = GET | HEAD | POST

datatype handler =
  Health | VideoInfo | Search | StreamGet | StreamHead | ClearCache | CacheStats | NotFound

definition routes :: "(verb \<times> string list \<times> handler) list" where
  "routes =
     [(GET, [''api'', ''health''], Health),
      (GET, [''api'', ''info'', '':videoId''], VideoInfo),
      (GET, [''api'', ''search''], Search),
      (GET, [''api'', ''stream'', '':videoId''], StreamGet),
      (HEAD, [''api'', ''stream'', '':videoId''], StreamHead),
      (POST, [''api'', ''cache'', ''clear''], ClearCache),
      (GET, [''api'', ''cache'', ''stats''], CacheStats)]"

definition segmentMatches :: "string \<Rightarrow> string \<Rightarrow> bool" where
  "segmentMatches pattern segment =
     (if take 1 pattern = '':'' then segment \<noteq> [] else pattern = segment)"

definition pathMatches :: "string list \<Rightarrow> string list \<Rightarrow> bool" where
  "pathMatches pattern path = list_all2 segmentMatches pattern path"

definition handlesMethod :: "verb \<Rightarrow> verb \<Rightarrow> bool" where
  "handlesMethod registered m = (registered = m \<or> (registered = GET \<and> m = HEAD))"

definition dispatch :: "verb \<Rightarrow> string list \<Rightarrow> handler" where
  "dispatch m path =
     (case filter (\<lambda>(registered, pattern, h). pathMatches pattern path \<and> handlesMethod registered m)
             routes of
        [] \<Rightarrow> NotFound
      | (registered, pattern, h) # _ \<Rightarrow> h)"

section \<open>The invariant of the pending map\<close>

text \<open>
  What every run keeps true: a promise whose extraction is in flight is the pending
  entry of its identifier, and that identifier has no cached URL; every pending entry
  names a promise in flight for its identifier; no cached URL is empty.
\<close>

definition consistent :: "server \<Rightarrow> bool" where
  "consistent s =
     ((\<forall>p vid. p < length (promises s) \<and> promises s ! p = (vid, None) \<longrightarrow>
         map_of (pendingStreamRequests s) vid = Some p \<and> map_of (streamUrlCache s) vid = None) \<and>
      (\<forall>vid p. map_of (pendingStreamRequests s) vid = Some p \<longrightarrow>
         p < length (promises s) \<and> promises s ! p = (vid, None)) \<and>
      (\<forall>kv\<in>set (streamUrlCache s). content (snd kv) \<noteq> []))"

section \<open>Example formats\<close>

text \<open>
  Two audio-only formats, neither segmented, both with a known content length, and a
  format with video.
\<close>

definition mp4_128 :: format where
  "mp4_128 = \<lparr>url = Some ''https://upstream/audio.mp4'', mimeType = ''audio/mp4'',
               container = ''mp4'', audioBitrate = Some 128, contentLength = Some ''2000000'',
               isHLS = False, isDashMPD = False, hasVideo = False, hasAudio = True\<rparr>"

definition webm_256 :: format where
  "webm_256 = \<lparr>url = Some ''https://upstream/audio.webm'', mimeType = ''audio/webm'',
                container = ''webm'', audioBitrate = Some 256, contentLength = Some ''4000000'',
                isHLS = False, isDashMPD = False, hasVideo = False, hasAudio = True\<rparr>"

definition mp4_video :: format where
  "mp4_video = \<lparr>url = Some ''https://upstream/video.mp4'', mimeType = ''video/mp4'',
                 container = ''mp4'', audioBitrate = Some 320, contentLength = Some ''9000000'',
                 isHLS = False, isDashMPD = False, hasVideo = True, hasAudio = True\<rparr>"

section \<open>Sequences of stores\<close>

text \<open>A sequence of stores into a cache, each with its time, its key and its value.\<close>

definition setAllStreamUrls :: "(int \<times> string \<times> string) list \<Rightarrow> server \<Rightarrow> server" where
  "setAllStreamUrls puts s = fold (\<lambda>(now, vid, u). setCachedStreamUrl now vid u) puts s"

definition setAllVideoInfos :: "(int \<times> string \<times> videoInfo) list \<Rightarrow> server \<Rightarrow> server" where
  "setAllVideoInfos puts s = fold (\<lambda>(now, vid, i). setCachedVideoInfo now vid i) puts s"

text \<open>
  Ten thousand distinct identifiers: seven letters \<open>a\<close> followed by four decimal digits.
\<close>

definition exampleIds :: "string list" where
  "exampleIds = map (\<lambda>digits. ''aaaaaaa'' @ digits) (List.n_lists 4 ''0123456789'')"

section \<open>Cache lemmas\<close>

lemma length_delete_le: "length (AList.delete k al) \<le> length al"
  by (induction al) auto

lemma length_delete_less:
  "map_of al k = Some v \<Longrightarrow> length (AList.delete k al) < length al"
proof (induction al)
  case Nil
  then show ?case by simp
next
  case (Cons p ps)
  show ?case
  proof (cases "fst p = k")
    case True
    then show ?thesis using length_delete_le [of k ps] by simp
  next
    case False
    then have "map_of ps k = Some v" using Cons.prems by (cases p) auto
    then show ?thesis using Cons.IH False by simp
  qed
qed

lemma map_of_delete_same: "map_of (AList.delete k al) k = None"
  by (simp add: AList.delete_conv)

lemma stream_get_put:
  "now' - now \<le> STREAM_CACHE_TTL_MS \<Longrightarrow>
   getCachedStreamUrl now' k (setCachedStreamUrl now k u s) =
     (Some u, setCachedStreamUrl now k u s)"
  by (simp add: getCachedStreamUrl_def setCachedStreamUrl_def AList.update_conv')

lemma info_get_put:
  "now' - now \<le> INFO_CACHE_TTL_MS \<Longrightarrow>
   getCachedVideoInfo now' k (setCachedVideoInfo now k i s) =
     (Some i, setCachedVideoInfo now k i s)"
  by (simp add: getCachedVideoInfo_def setCachedVideoInfo_def AList.update_conv')

lemma stream_expired:
  assumes "map_of (streamUrlCache s) k = Some c"
    and "now - timestamp c > STREAM_CACHE_TTL_MS"
  shows "getCachedStreamUrl now k s =
    (None, s\<lparr>streamUrlCache := AList.delete k (streamUrlCache s)\<rparr>)"
  using assms by (simp add: getCachedStreamUrl_def)

lemma info_expired:
  assumes "map_of (videoInfoCache s) k = Some c"
    and "now - timestamp c > INFO_CACHE_TTL_MS"
  shows "getCachedVideoInfo now k s =
    (None, s\<lparr>videoInfoCache := AList.delete k (videoInfoCache s)\<rparr>)"
  using assms by (simp add: getCachedVideoInfo_def)

text \<open>
  Claim C3. In both caches a lookup at the time of the store, and at any time \<open>now'\<close> not
  more than the time-to-live after it, returns the stored value. A lookup of a key whose
  entry is older than the time-to-live returns a miss and deletes the entry: the key is
  gone from the map and the map's size has gone down.
\<close>

theorem cache_get_after_put_and_expiry:
  "fst (getCachedStreamUrl now k (setCachedStreamUrl now k u s)) = Some u \<and>
   fst (getCachedVideoInfo now k (setCachedVideoInfo now k i s)) = Some i \<and>
   (now' - now \<le> STREAM_CACHE_TTL_MS \<longrightarrow>
      fst (getCachedStreamUrl now' k (setCachedStreamUrl now k u s)) = Some u) \<and>
   (now' - now \<le> INFO_CACHE_TTL_MS \<longrightarrow>
      fst (getCachedVideoInfo now' k (setCachedVideoInfo now k i s)) = Some i) \<and>
   (map_of (streamUrlCache s) k = Some c \<and> now' - timestamp c > STREAM_CACHE_TTL_MS \<longrightarrow>
      fst (getCachedStreamUrl now' k s) = None \<and>
      map_of (streamUrlCache (snd (getCachedStreamUrl now' k s))) k = None \<and>
      length (streamUrlCache (snd (getCachedStreamUrl now' k s))) < length (streamUrlCache s)) \<and>
   (map_of (videoInfoCache s) k = Some d \<and> now' - timestamp d > INFO_CACHE_TTL_MS \<longrightarrow>
      fst (getCachedVideoInfo now' k s) = None \<and>
      map_of (videoInfoCache (snd (getCachedVideoInfo now' k s))) k = None \<and>
      length (videoInfoCache (snd (getCachedVideoInfo now' k s))) < length (videoInfoCache s))"
proof -
  have ttl: "0 \<le> STREAM_CACHE_TTL_MS" "0 \<le> INFO_CACHE_TTL_MS"
    by (simp_all add: STREAM_CACHE_TTL_MS_def INFO_CACHE_TTL_MS_def)
  have a: "fst (getCachedStreamUrl now k (setCachedStreamUrl now k u s)) = Some u"
    using ttl by (simp add: stream_get_put)
  have b: "fst (getCachedVideoInfo now k (setCachedVideoInfo now k i s)) = Some i"
    using ttl by (simp add: info_get_put)
  show ?thesis
    using a b
    by (auto simp: stream_get_put info_get_put stream_expired info_expired
        map_of_delete_same length_delete_less)
qed

theorem cache_get_after_put_and_expiry_witness:
  "fst (getCachedStreamUrl 10800000 ''dQw4w9WgXcQ''
         (setCachedStreamUrl 0 ''dQw4w9WgXcQ'' ''https://u'' initial)) = Some ''https://u'' \<and>
   fst (getCachedStreamUrl 10800001 ''dQw4w9WgXcQ''
         (setCachedStreamUrl 0 ''dQw4w9WgXcQ'' ''https://u'' initial)) = None \<and>
   length (streamUrlCache (snd (getCachedStreamUrl 10800001 ''dQw4w9WgXcQ''
         (setCachedStreamUrl 0 ''dQw4w9WgXcQ'' ''https://u'' initial)))) < 1 \<and>
   fst (getCachedVideoInfo 86400000 ''dQw4w9WgXcQ''
         (setCachedVideoInfo 0 ''dQw4w9WgXcQ''
            \<lparr>videoId = ''dQw4w9WgXcQ'', title = ''t'', channelName = ''c'', thumbnail = [],
              duration = 212\<rparr> initial)) =
     Some \<lparr>videoId = ''dQw4w9WgXcQ'', title = ''t'', channelName = ''c'', thumbnail = [],
            duration = 212\<rparr> \<and>
   fst (getCachedVideoInfo 86400001 ''dQw4w9WgXcQ''
         (setCachedVideoInfo 0 ''dQw4w9WgXcQ''
            \<lparr>videoId = ''dQw4w9WgXcQ'', title = ''t'', channelName = ''c'', thumbnail = [],
              duration = 212\<rparr> initial)) = None"
  using cache_get_after_put_and_expiry
    [of 0 "''dQw4w9WgXcQ''" "''https://u''" initial
      "\<lparr>videoId = ''dQw4w9WgXcQ'', title = ''t'', channelName = ''c'', thumbnail = [],
         duration = 212\<rparr>" 10800000]
    cache_get_after_put_and_expiry
    [of 0 "''dQw4w9WgXcQ''" "''https://u''" initial
      "\<lparr>videoId = ''dQw4w9WgXcQ'', title = ''t'', channelName = ''c'', thumbnail = [],
         duration = 212\<rparr>" 86400000]
    cache_get_after_put_and_expiry
    [of 0 "''dQw4w9WgXcQ''" "''https://u''"
      "setCachedStreamUrl 0 ''dQw4w9WgXcQ'' ''https://u'' initial"
      undefined 10800001 "\<lparr>content = ''https://u'', timestamp = 0\<rparr>"]
    cache_get_after_put_and_expiry
    [of 0 "''dQw4w9WgXcQ''" "''https://u''"
      "setCachedVideoInfo 0 ''dQw4w9WgXcQ''
         \<lparr>videoId = ''dQw4w9WgXcQ'', title = ''t'', channelName = ''c'', thumbnail = [],
           duration = 212\<rparr> initial"
      undefined 86400001 undefined
      "\<lparr>content = \<lparr>videoId = ''dQw4w9WgXcQ'', title = ''t'', channelName = ''c'',
           thumbnail = [], duration = 212\<rparr>, timestamp = 0\<rparr>"]
  by (simp add: STREAM_CACHE_TTL_MS_def INFO_CACHE_TTL_MS_def setCachedStreamUrl_def
      setCachedVideoInfo_def initial_def)

section \<open>The normalizer on identifiers and URLs\<close>

lemma idChars_codes:
  "list_all (\<lambda>c. 45 \<le> (of_char c :: nat) \<and> (of_char c :: nat) \<le> 122 \<and> (of_char c :: nat) \<noteq> 47 \<and>
      (of_char c :: nat) \<noteq> 61 \<and> (of_char c :: nat) \<noteq> 63 \<and> (of_char c :: nat) \<noteq> 92) idChars"
  by (simp add: idChars_def)

lemma idChar_code:
  assumes "idChar c"
  shows "45 \<le> (of_char c :: nat)" "(of_char c :: nat) \<le> 122" "(of_char c :: nat) \<noteq> 47"
      "(of_char c :: nat) \<noteq> 61" "(of_char c :: nat) \<noteq> 63" "(of_char c :: nat) \<noteq> 92"
  using assms idChars_codes unfolding idChar_def list_all_iff by blast+

lemma idChar_cases:
  assumes "idChar c"
  shows "\<not> jsWhiteSpace c" "\<not> c0ControlOrSpace c" "\<not> asciiTabOrNewline c"
     "c \<noteq> CHR ''#''" "c \<noteq> CHR ''?''" "c \<noteq> CHR ''&''" "c \<noteq> CHR ''=''" "c \<noteq> CHR ''+''"
     "c \<noteq> CHR ''%''" "\<not> slash c" "\<not> slashOrBackslash c"
  using idChar_code[OF assms]
  by (auto simp: jsWhiteSpace_def c0ControlOrSpace_def asciiTabOrNewline_def slash_def
      slashOrBackslash_def)

lemma slash_iff: "slash c \<longleftrightarrow> c = CHR ''/''"
  by (simp add: slash_def)

lemma slashOrBackslash_iff: "slashOrBackslash c \<longleftrightarrow> c = CHR ''/'' \<or> of_char c = (92::nat)"
  by (simp add: slashOrBackslash_def)

lemma dropWhile_hd: "x \<noteq> [] \<Longrightarrow> \<not> P (hd x) \<Longrightarrow> dropWhile P x = x"
  by (cases x) auto

lemma strip_both:
  "x \<noteq> [] \<Longrightarrow> \<not> P (hd x) \<Longrightarrow> \<not> P (last x) \<Longrightarrow> rev (dropWhile P (rev (dropWhile P x))) = x"
  by (simp add: dropWhile_hd hd_rev)

lemma split_none: "list_all (\<lambda>c. \<not> sep c) x \<Longrightarrow> split sep x = [x]"
  by (induction x) auto

lemma percentDecode_none: "list_all (\<lambda>c. c \<noteq> CHR ''%'') x \<Longrightarrow> percentDecode x = x"
  by (induction x rule: percentDecode.induct) auto

lemma list_all_idChar:
  assumes "list_all idChar x"
  shows "list_all (\<lambda>c. \<not> slash c) x" "list_all (\<lambda>c. \<not> slashOrBackslash c) x"
    "list_all (\<lambda>c. c \<noteq> CHR ''%'') x" "list_all (\<lambda>c. \<not> c = CHR ''&'') x"
    "list_all (\<lambda>c. c \<noteq> CHR ''#'') x" "list_all (\<lambda>c. c \<noteq> CHR ''?'') x"
    "list_all (\<lambda>c. c \<noteq> CHR ''='') x" "list_all (\<lambda>c. c \<noteq> CHR ''+'') x"
    "list_all (\<lambda>c. \<not> asciiTabOrNewline c) x"
  using assms idChar_cases by (auto simp: list_all_iff)

lemma matchesId_ends:
  assumes "matchesId x"
  shows "x \<noteq> []" "idChar (hd x)" "idChar (last x)" "list_all idChar x" "length x = 11"
proof -
  show ne: "x \<noteq> []" using assms by (auto simp: matchesId_def)
  show all: "list_all idChar x" using assms by (simp add: matchesId_def)
  show "idChar (hd x)" using ne all by (simp add: list_all_iff)
  show "idChar (last x)" using ne all by (simp add: list_all_iff)
  show "length x = 11" using assms by (simp add: matchesId_def)
qed

lemma matchesId_trim: "matchesId x \<Longrightarrow> trim x = x"
  unfolding trim_def
  by (rule strip_both) (auto dest: matchesId_ends idChar_cases)

lemma normalize_id: "matchesId x \<Longrightarrow> normalizeVideoId x = Some x"
  by (simp add: normalizeVideoId_def matchesId_trim matchesId_ends(1))

lemma takeWhile_all: "list_all P x \<Longrightarrow> takeWhile P x = x"
  by (simp add: list_all_iff)

lemma dropWhile_all: "list_all P x \<Longrightarrow> dropWhile P x = []"
  by (simp add: list_all_iff)

lemma filter_all: "list_all P x \<Longrightarrow> filter P x = x"
  by (simp add: list_all_iff)

lemma not_dots:
  assumes "length x = 11"
  shows "\<not> singleDot x" "\<not> doubleDot x"
proof -
  have "length (map asciiLower x) = 11" using assms by simp
  then have ne: "map asciiLower x \<noteq> y" if "length y \<noteq> 11" for y
    using that by auto
  show "\<not> singleDot x" by (simp add: singleDot_def ne)
  show "\<not> doubleDot x" by (simp add: doubleDot_def ne)
qed

lemma strip_suffix:
  assumes "x \<noteq> []" "\<not> P (last x)" "\<not> P a"
  shows "rev (dropWhile P (rev (dropWhile P (a # pre @ x)))) = a # pre @ x"
proof (rule strip_both)
  show "a # pre @ x \<noteq> []" by simp
  show "\<not> P (hd (a # pre @ x))" using assms by simp
  show "\<not> P (last (a # pre @ x))" using assms by simp
qed

lemma domainOk_y: "domainOk ''y''"
  by (simp add: domainOk_def asciiLower_def forbiddenDomainChar_def forbiddenHostChar_def
      endsInNumber_def dot_def ipv4Number_def numberIn_def digitIn_def hexValue_def
      asciiDigit_def Let_def)

lemma authorityOk_y: "authorityOk True ''y''"
  by (simp add: authorityOk_def afterLastAt_def hostOf_def hostOk_def portOk_def domainOk_y)

lemma uRL_watch:
  assumes "matchesId x"
  shows "uRL (''https://y/watch?v='' @ x) = Some \<lparr>pathname = ''/watch'', query = ''v='' @ x\<rparr>"
proof -
  note all = list_all_idChar[OF matchesId_ends(4)[OF assms]]
  have strip: "rev (dropWhile c0ControlOrSpace (rev (dropWhile c0ControlOrSpace (''https://y/watch?v='' @ x))))
      = ''https://y/watch?v='' @ x"
    using strip_suffix[of x c0ControlOrSpace "CHR ''h''" "''ttps://y/watch?v=''"]
      matchesId_ends[OF assms] idChar_cases[of "last x"]
    by (simp add: c0ControlOrSpace_def)
  have filt: "filter (\<lambda>c. \<not> asciiTabOrNewline c) (''https://y/watch?v='' @ x) = ''https://y/watch?v='' @ x"
    using all(9) by (simp add: filter_all asciiTabOrNewline_def)
  have scheme: "parseScheme (''https://y/watch?v='' @ x) = Some (''https'', ''//y/watch?v='' @ x)"
    by (simp add: parseScheme_def asciiAlpha_def schemeChar_def asciiDigit_def asciiLower_def)
  have path: "specialPath ''//y/watch'' = Some ''/watch''"
    by (simp add: specialPath_def slashOrBackslash_def authorityOk_y pathAfterAuthority_def
        serializePath_def singleDot_def doubleDot_def asciiLower_def)
  show ?thesis
    unfolding uRL_def Let_def strip filt scheme
    using all by (simp add: path specialSchemes_def list_all_iff)
qed


lemma uRL_embed:
  assumes "matchesId x"
  shows "uRL (''https://y/embed/'' @ x) = Some \<lparr>pathname = ''/embed/'' @ x, query = []\<rparr>"
proof -
  note all = list_all_idChar[OF matchesId_ends(4)[OF assms]]
  have strip: "rev (dropWhile c0ControlOrSpace (rev (dropWhile c0ControlOrSpace (''https://y/embed/'' @ x))))
      = ''https://y/embed/'' @ x"
    using strip_suffix[of x c0ControlOrSpace "CHR ''h''" "''ttps://y/embed/''"]
      matchesId_ends[OF assms] idChar_cases[of "last x"]
    by (simp add: c0ControlOrSpace_def)
  have filt: "filter (\<lambda>c. \<not> asciiTabOrNewline c) (''https://y/embed/'' @ x) = ''https://y/embed/'' @ x"
    using all(9) by (simp add: filter_all asciiTabOrNewline_def)
  have scheme: "parseScheme (''https://y/embed/'' @ x) = Some (''https'', ''//y/embed/'' @ x)"
    by (simp add: parseScheme_def asciiAlpha_def schemeChar_def asciiDigit_def asciiLower_def)
  have segs: "split slashOrBackslash (''embed/'' @ x) = [''embed'', x]"
    by (simp add: slashOrBackslash_iff split_none[OF all(2)])
  have state: "pathState False [''embed'', x] [] = [''embed'', x]"
    using not_dots[OF matchesId_ends(5)[OF assms]]
    by (simp add: singleDot_def doubleDot_def asciiLower_def)
  have path: "specialPath (''//y/embed/'' @ x) = Some (''/embed/'' @ x)"
    using segs state
    by (simp add: specialPath_def slashOrBackslash_def authorityOk_y pathAfterAuthority_def
        serializePath_def)
  have hier: "takeWhile (\<lambda>c. c \<noteq> CHR ''?'') (takeWhile (\<lambda>c. c \<noteq> CHR ''#'') (''//y/embed/'' @ x))
      = ''//y/embed/'' @ x"
    by (simp add: takeWhile_all all)
  have q: "drop 1 (dropWhile (\<lambda>c. c \<noteq> CHR ''?'') (takeWhile (\<lambda>c. c \<noteq> CHR ''#'') (''//y/embed/'' @ x))) = []"
    by (simp add: takeWhile_all dropWhile_all all)
  show ?thesis
    unfolding uRL_def Let_def strip filt scheme
    by (simp only: hier q path specialSchemes_def option.case prod.case) simp
qed


lemma id_urlDecode:
  assumes "matchesId x"
  shows "urlDecode x = x"
proof -
  note all = list_all_idChar[OF matchesId_ends(4)[OF assms]]
  have "map (\<lambda>c. if c = CHR ''+'' then CHR '' '' else c) x = x"
    using all(8) by (induction x) auto
  then show ?thesis
    by (simp add: urlDecode_def percentDecode_none[OF all(3)])
qed

lemma watch_searchParams:
  assumes "matchesId x"
  shows "searchParams \<lparr>pathname = ''/watch'', query = ''v='' @ x\<rparr> = [(''v'', x)]"
proof -
  note all = list_all_idChar[OF matchesId_ends(4)[OF assms]]
  have piece: "split (\<lambda>c. c = CHR ''&'') (''v='' @ x) = [''v='' @ x]"
    by (simp add: split_none[OF all(4)])
  have v: "urlDecode ''v'' = ''v''"
    by (simp add: urlDecode_def)
  have val: "drop 1 (dropWhile (\<lambda>c. c \<noteq> CHR ''='') (''v='' @ x)) = x"
    by simp
  have nm: "takeWhile (\<lambda>c. c \<noteq> CHR ''='') (''v='' @ x) = ''v''"
    by simp
  show ?thesis
    unfolding searchParams_def URL.simps piece
    using v id_urlDecode[OF assms] by (simp only: filter.simps list.map nm val) simp
qed

lemma watch_trim:
  assumes "matchesId x"
  shows "trim (''https://y/watch?v='' @ x) = ''https://y/watch?v='' @ x"
    unfolding trim_def
    using strip_suffix[of x jsWhiteSpace "CHR ''h''" "''ttps://y/watch?v=''"]
      matchesId_ends[OF assms] idChar_cases[of "last x"]
    by (simp add: jsWhiteSpace_def)

lemma watch_not_id:
  assumes "matchesId x"
  shows "\<not> matchesId (''https://y/watch?v='' @ x)"
    using matchesId_ends(5)[OF assms] by (simp add: matchesId_def)

lemma normalize_watch:
  assumes "matchesId x"
  shows "normalizeVideoId (''https://y/watch?v='' @ x) = Some x"
proof -
  have ne: "''https://y/watch?v='' @ x \<noteq> []" by simp
  have get: "searchParams_get \<lparr>pathname = ''/watch'', query = ''v='' @ x\<rparr> ''v'' = Some x"
    unfolding searchParams_get_def watch_searchParams[OF assms] by simp
  have tr: "truthy (Some x)"
    using matchesId_ends(1)[OF assms] by (simp add: truthy_def)
  show ?thesis
    unfolding normalizeVideoId_def Let_def watch_trim[OF assms] uRL_watch[OF assms]
    by (simp only: ne watch_not_id[OF assms] get tr assms if_False if_True option.case option.sel simp_thms)
qed

lemma embed_trim:
  assumes "matchesId x"
  shows "trim (''https://y/embed/'' @ x) = ''https://y/embed/'' @ x"
    unfolding trim_def
    using strip_suffix[of x jsWhiteSpace "CHR ''h''" "''ttps://y/embed/''"]
      matchesId_ends[OF assms] idChar_cases[of "last x"]
    by (simp add: jsWhiteSpace_def)

lemma embed_not_id:
  assumes "matchesId x"
  shows "\<not> matchesId (''https://y/embed/'' @ x)"
    using matchesId_ends(5)[OF assms] by (simp add: matchesId_def)

lemma embed_parts:
  assumes "matchesId x"
  shows "filter (\<lambda>part. part \<noteq> []) (split slash (''/embed/'' @ x)) = [''embed'', x]"
proof -
  note all = list_all_idChar[OF matchesId_ends(4)[OF assms]]
  show ?thesis
    using matchesId_ends(1)[OF assms] by (simp add: slash_iff split_none[OF all(1)])
qed

lemma normalize_embed:
  assumes "matchesId x"
  shows "normalizeVideoId (''https://y/embed/'' @ x) = Some x"
proof -
  have ne: "''https://y/embed/'' @ x \<noteq> []" by simp
  have get: "searchParams_get \<lparr>pathname = ''/embed/'' @ x, query = []\<rparr> ''v'' = None"
    by (simp add: searchParams_get_def searchParams_def)
  have tr: "truthy (Some x)" "\<not> truthy None"
    using matchesId_ends(1)[OF assms] by (simp_all add: truthy_def)
  have cand: "take 1 [''embed'', x] \<noteq> [''watch'']" "[''embed'', x] \<noteq> []" "last [''embed'', x] = x"
    by simp_all
  show ?thesis
    unfolding normalizeVideoId_def Let_def embed_trim[OF assms] uRL_embed[OF assms]
    by (simp only: ne embed_not_id[OF assms] get tr assms if_False if_True option.case option.sel
        simp_thms URL.simps embed_parts[OF assms] cand)
qed

lemma normalize_garbage:
  "normalizeVideoId [] = None" "normalizeVideoId ''http://'' = None" "normalizeVideoId ''12345'' = None"
proof -
  show "normalizeVideoId [] = None" by (simp add: normalizeVideoId_def)
  have "uRL ''http://'' = None"
    by (simp add: uRL_def c0ControlOrSpace_def asciiTabOrNewline_def parseScheme_def asciiAlpha_def
        schemeChar_def asciiDigit_def asciiLower_def specialSchemes_def specialPath_def
        slashOrBackslash_def authorityOk_def afterLastAt_def hostOf_def hostOk_def)
  then show "normalizeVideoId ''http://'' = None"
    by (simp add: normalizeVideoId_def trim_def jsWhiteSpace_def matchesId_def)
  have "uRL ''12345'' = None"
    by (simp add: uRL_def c0ControlOrSpace_def asciiTabOrNewline_def parseScheme_def asciiAlpha_def)
  then show "normalizeVideoId ''12345'' = None"
    by (simp add: normalizeVideoId_def trim_def jsWhiteSpace_def matchesId_def)
qed

text \<open>
  Claim C7. \<open>normalizeVideoId\<close> is a function of its argument alone. An input that matches
  the eleven-character pattern is returned unchanged; for such an \<open>x\<close> the inputs
  \<open>https://y/watch?v=x\<close> and \<open>https://y/embed/x\<close> yield \<open>x\<close>; the empty string,
  \<open>http://\<close> and \<open>12345\<close> yield \<open>null\<close>.
\<close>

theorem normalizeVideoId_cases:
  "(matchesId x \<longrightarrow>
      normalizeVideoId x = Some x \<and>
      normalizeVideoId (''https://y/watch?v='' @ x) = Some x \<and>
      normalizeVideoId (''https://y/embed/'' @ x) = Some x) \<and>
   normalizeVideoId [] = None \<and>
   normalizeVideoId ''http://'' = None \<and>
   normalizeVideoId ''12345'' = None"
  using normalize_id normalize_watch normalize_embed normalize_garbage by blast

theorem normalizeVideoId_cases_witness:
  "matchesId ''dQw4w9WgXcQ'' \<and>
   normalizeVideoId ''dQw4w9WgXcQ'' = Some ''dQw4w9WgXcQ'' \<and>
   normalizeVideoId ''https://y/watch?v=dQw4w9WgXcQ'' = Some ''dQw4w9WgXcQ'' \<and>
   normalizeVideoId ''https://y/embed/dQw4w9WgXcQ'' = Some ''dQw4w9WgXcQ''"
  using normalizeVideoId_cases [of "''dQw4w9WgXcQ''"]
  by (simp add: matchesId_def idChar_def idChars_def)

section \<open>The stream endpoints: relay, range and errors\<close>

lemma upstreamHeaders_range:
  "map_of (upstreamHeaders req) ''Range'' =
     (if truthy (headers_range req) then headers_range req else None)"
  by (auto simp: upstreamHeaders_def truthy_def split: option.splits)

text \<open>
  Claim C6, as amended. A \<open>Range\<close> header with a non-empty value is forwarded unchanged
  as the \<open>Range\<close> header of the upstream request, next to the fixed \<open>User-Agent\<close>; when
  the request has no \<open>Range\<close> header, or one with an empty value, the upstream request
  carries no \<open>Range\<close> header. These are the headers the handler passes to \<open>fetch\<close>.
\<close>

theorem range_forwarded_when_non_empty:
  "(headers_range req = Some r \<and> r \<noteq> [] \<longrightarrow>
      map_of (upstreamHeaders req) ''Range'' = Some r \<and>
      upstreamHeaders req =
        [(''User-Agent'', ''Mozilla/5.0 (Windows NT 10.0; Win64; x64) AppleWebKit/537.36''),
         (''Range'', r)]) \<and>
   (headers_range req = None \<or> headers_range req = Some [] \<longrightarrow>
      map_of (upstreamHeaders req) ''Range'' = None \<and>
      upstreamHeaders req =
        [(''User-Agent'', ''Mozilla/5.0 (Windows NT 10.0; Win64; x64) AppleWebKit/537.36'')]) \<and>
   streamGetResume nodeEnv fetch req vid (Inr directUrl) =
     (case fetch directUrl (upstreamHeaders req) of
        Inl e \<Rightarrow> streamCatch nodeEnv False vid e
      | Inr upstream \<Rightarrow> Some (relay upstream))"
  by (auto simp: upstreamHeaders_def truthy_def streamGetResume_def)

text \<open>The theorem at a request with \<open>Range: bytes=100-199\<close> and at one without the header.\<close>

theorem range_forwarded_when_non_empty_witness:
  "map_of (upstreamHeaders \<lparr>params_videoId = ''dQw4w9WgXcQ'', headers_range = Some ''bytes=100-199''\<rparr>)
     ''Range'' = Some ''bytes=100-199'' \<and>
   map_of (upstreamHeaders \<lparr>params_videoId = ''dQw4w9WgXcQ'', headers_range = None\<rparr>)
     ''Range'' = None"
  using range_forwarded_when_non_empty
      [of "\<lparr>params_videoId = ''dQw4w9WgXcQ'', headers_range = Some ''bytes=100-199''\<rparr>"
          "''bytes=100-199''"]
    range_forwarded_when_non_empty
      [of "\<lparr>params_videoId = ''dQw4w9WgXcQ'', headers_range = None\<rparr>"]
  by simp

text \<open>
  Claim C6 as stated fails for a request whose \<open>Range\<close> header is present with an empty
  value: \<open>if (req.headers.range)\<close> is false for it, and nothing is forwarded.
\<close>

theorem empty_range_not_forwarded:
  "headers_range \<lparr>params_videoId = ''dQw4w9WgXcQ'', headers_range = Some []\<rparr> = Some [] \<and>
   map_of (upstreamHeaders \<lparr>params_videoId = ''dQw4w9WgXcQ'', headers_range = Some []\<rparr>)
     ''Range'' = None"
  by (simp add: upstreamHeaders_def truthy_def)











lemma streamCatch_response:
  assumes "name e \<noteq> ''AbortError''"
  shows "streamCatch nodeEnv False vid e =
    Some (json (if string_includes (if message e = [] then ''Failed to stream audio'' else message e)
                     ''unavailable'' then 404 else 500)
       [(''error'', Some (if message e = [] then ''Failed to stream audio'' else message e)),
        (''videoId'', Some vid),
        (''suggestion'',
         Some ''This video may be restricted, unavailable, or require age verification.''),
        (''details'', if nodeEnv = Some ''development'' then Some (stack e) else None)])"
  using assms by (simp add: streamCatch_def Let_def)

text \<open>
  Claim C8, as amended. An invalid identifier is answered with status 400 and a JSON body
  holding an error string and the identifier as received, and the server state is left
  as it was: \<open>fetchStreamUrl\<close> is not called. A rejected resolution whose error is not
  named \<open>AbortError\<close> is answered with a JSON body holding \<open>error\<close>, the identifier and
  \<open>suggestion\<close>, with status 404 when the message contains \<open>unavailable\<close> and 500
  otherwise; \<open>details\<close> holds the stack only when \<open>NODE_ENV\<close> is \<open>development\<close>. For a
  rejection named \<open>AbortError\<close> the handler returns without writing a response.
\<close>

theorem stream_errors:
  "(normalizeVideoId (params_videoId req) = None \<longrightarrow>
      streamGetStart now req s =
        (Responded (json 400 [(''error'', Some ''Invalid video ID''),
                              (''videoId'', Some (params_videoId req))]), s)) \<and>
   (name e \<noteq> ''AbortError'' \<longrightarrow>
      (\<exists>res msg.
         streamGetResume nodeEnv fetch req' vid (Inl e) = Some res \<and>
         msg = (if message e = [] then ''Failed to stream audio'' else message e) \<and>
         status res = (if string_includes msg ''unavailable'' then 404 else 500) \<and>
         body res = Json [(''error'', Some msg), (''videoId'', Some vid),
                          (''suggestion'',
                           Some ''This video may be restricted, unavailable, or require age verification.''),
                          (''details'',
                           if nodeEnv = Some ''development'' then Some (stack e) else None)])) \<and>
   (name e = ''AbortError'' \<longrightarrow> streamGetResume nodeEnv fetch req' vid (Inl e) = None)"
  by (auto simp: streamGetStart_def streamGetResume_def streamCatch_response json_def streamCatch_def)

text \<open>
  Claim C8 as stated fails for a resolution rejected with an error named \<open>AbortError\<close>
  (the name of the HTTP client's aborted-request error): the \<open>catch\<close> block returns at
  its first line and no JSON body is written.
\<close>

theorem abort_error_no_response:
  "streamGetResume (Some ''production'') (\<lambda>u h. Inl (newError ''unreachable''))
     \<lparr>params_videoId = ''dQw4w9WgXcQ'', headers_range = None\<rparr> ''dQw4w9WgXcQ''
     (Inl \<lparr>name = ''AbortError'', message = ''Request aborted'', stack = ''AbortError: Request aborted''\<rparr>)
   = None"
  by (simp add: streamGetResume_def streamCatch_def)

text \<open>
  The theorem at the identifier \<open>12345\<close> and at a rejection with the message
  \<open>Video unavailable\<close>, outside development.
\<close>

theorem stream_errors_witness:
  "streamGetStart 0 \<lparr>params_videoId = ''12345'', headers_range = None\<rparr> initial =
     (Responded (json 400 [(''error'', Some ''Invalid video ID''), (''videoId'', Some ''12345'')]),
      initial) \<and>
   (\<exists>res. streamGetResume (Some ''production'') (\<lambda>u h. Inl (newError ''unreachable''))
             \<lparr>params_videoId = ''dQw4w9WgXcQ'', headers_range = None\<rparr> ''dQw4w9WgXcQ''
             (Inl (newError ''Video unavailable'')) = Some res \<and>
          status res = 404 \<and>
          body res = Json [(''error'', Some ''Video unavailable''),
                           (''videoId'', Some ''dQw4w9WgXcQ''),
                           (''suggestion'',
                            Some ''This video may be restricted, unavailable, or require age verification.''),
                           (''details'', None)])"
  using stream_errors
      [of "\<lparr>params_videoId = ''12345'', headers_range = None\<rparr>" 0 initial
          "newError ''Video unavailable''" "Some ''production''"
          "\<lambda>u h. Inl (newError ''unreachable'')"
          "\<lparr>params_videoId = ''dQw4w9WgXcQ'', headers_range = None\<rparr>" "''dQw4w9WgXcQ''"]
    normalize_garbage(3)
  by (simp add: newError_def)

section \<open>The HEAD endpoint\<close>

lemma dispatch_never_head: "dispatch m path \<noteq> StreamHead"
proof (cases "pathMatches [''api'', ''stream'', '':videoId''] path")
  case True
  then show ?thesis
    by (cases m) (simp_all add: dispatch_def routes_def handlesMethod_def)
next
  case False
  then show ?thesis
    by (cases m) (simp_all add: dispatch_def routes_def handlesMethod_def)
qed

lemma dispatch_head_stream:
  "segment \<noteq> [] \<Longrightarrow> dispatch HEAD [''api'', ''stream'', segment] = StreamGet"
  by (simp add: dispatch_def routes_def handlesMethod_def pathMatches_def segmentMatches_def)

text \<open>
  Claim C10 describes the callback registered with \<open>app.head\<close>, and the program does not
  do what it says: the route registered with \<open>app.get\<close> for the same path comes first and
  takes every \<open>HEAD\<close> request, so no request reaches that callback. A \<open>HEAD\<close> request
  for a valid identifier is answered by the \<open>GET\<close> handler, which waits for the
  resolution: here the server has nothing cached, the handler starts an extraction, and
  when it is rejected with \<open>Video unavailable\<close> the answer is 404. The callback of
  \<open>app.head\<close> would have answered 200 at once.
\<close>

theorem head_request_answered_by_get_route:
  "dispatch HEAD [''api'', ''stream'', ''dQw4w9WgXcQ''] = StreamGet \<and>
   (\<forall>m path. dispatch m path \<noteq> StreamHead) \<and>
   streamGetStart 0 \<lparr>params_videoId = ''dQw4w9WgXcQ'', headers_range = None\<rparr> initial =
     (Awaiting ''dQw4w9WgXcQ'' (Promise 0),
      initial\<lparr>pendingStreamRequests := [(''dQw4w9WgXcQ'', 0)],
              promises := [(''dQw4w9WgXcQ'', None)]\<rparr>) \<and>
   streamGetResume (Some ''production'') (\<lambda>u h. Inl (newError ''unreachable''))
     \<lparr>params_videoId = ''dQw4w9WgXcQ'', headers_range = None\<rparr> ''dQw4w9WgXcQ''
     (streamOutcome (Inl (newError ''Video unavailable''))) =
     Some (json 404
       [(''error'', Some ''Video unavailable''),
        (''videoId'', Some ''dQw4w9WgXcQ''),
        (''suggestion'',
         Some ''This video may be restricted, unavailable, or require age verification.''),
        (''details'', None)]) \<and>
   status (fst (streamHeadHandler 0 0
                  \<lparr>params_videoId = ''dQw4w9WgXcQ'', headers_range = None\<rparr> initial)) = 200"
proof -
  have ok: "normalizeVideoId ''dQw4w9WgXcQ'' = Some ''dQw4w9WgXcQ''"
    by (rule normalize_id) (simp add: matchesId_def idChar_def idChars_def)
  have route: "dispatch HEAD [''api'', ''stream'', ''dQw4w9WgXcQ''] = StreamGet"
    by (rule dispatch_head_stream) simp
  have start: "streamGetStart 0 \<lparr>params_videoId = ''dQw4w9WgXcQ'', headers_range = None\<rparr> initial =
     (Awaiting ''dQw4w9WgXcQ'' (Promise 0),
      initial\<lparr>pendingStreamRequests := [(''dQw4w9WgXcQ'', 0)],
              promises := [(''dQw4w9WgXcQ'', None)]\<rparr>)"
    by (simp add: streamGetStart_def ok fetchStreamUrl_def getCachedStreamUrl_def initial_def
        truthy_def)
  have resume: "streamGetResume (Some ''production'') (\<lambda>u h. Inl (newError ''unreachable''))
     \<lparr>params_videoId = ''dQw4w9WgXcQ'', headers_range = None\<rparr> ''dQw4w9WgXcQ''
     (streamOutcome (Inl (newError ''Video unavailable''))) =
     Some (json 404
       [(''error'', Some ''Video unavailable''),
        (''videoId'', Some ''dQw4w9WgXcQ''),
        (''suggestion'',
         Some ''This video may be restricted, unavailable, or require age verification.''),
        (''details'', None)])"
    by (simp add: streamGetResume_def streamOutcome_def streamCatch_def newError_def)
  have head: "status (fst (streamHeadHandler 0 0
                  \<lparr>params_videoId = ''dQw4w9WgXcQ'', headers_range = None\<rparr> initial)) = 200"
    by (simp add: streamHeadHandler_def ok getCachedStreamUrl_def initial_def truthy_def)
  show ?thesis
    using route dispatch_never_head start resume head by (intro conjI allI)
qed

section \<open>Format selection\<close>

lemma higherBitrate_cases:
  "higherBitrate best f = (if bitrateOrZero best < bitrateOrZero f then f else best)"
  by (simp add: higherBitrate_def Let_def)

lemma foldl_higherBitrate:
  "\<exists>pre post. b # xs = pre @ foldl higherBitrate b xs # post \<and>
     (\<forall>f\<in>set pre. bitrateOrZero f < bitrateOrZero (foldl higherBitrate b xs)) \<and>
     (\<forall>f\<in>set post. bitrateOrZero f \<le> bitrateOrZero (foldl higherBitrate b xs))"
proof (induction xs arbitrary: b)
  case Nil
  show ?case by (intro exI[of _ "[]"]) simp
next
  case (Cons x xs)
  show ?case
  proof (cases "bitrateOrZero b < bitrateOrZero x")
    case True
    let ?r = "foldl higherBitrate x xs"
    from Cons.IH[of x] obtain pre post where
      split: "x # xs = pre @ ?r # post" and
      lo: "\<forall>f\<in>set pre. bitrateOrZero f < bitrateOrZero ?r" and
      hi: "\<forall>f\<in>set post. bitrateOrZero f \<le> bitrateOrZero ?r"
      by blast
    have "x \<in> set (pre @ ?r # post)" using split by (metis list.set_intros(1))
    then have "bitrateOrZero x \<le> bitrateOrZero ?r" using lo hi by auto
    then have b: "bitrateOrZero b < bitrateOrZero ?r" using True by simp
    have eq: "foldl higherBitrate b (x # xs) = ?r" using True by (simp add: higherBitrate_cases)
    have "b # x # xs = (b # pre) @ ?r # post" using split by simp
    then show ?thesis using lo hi b unfolding eq by (intro exI[of _ "b # pre"] exI[of _ post]) simp
  next
    case False
    let ?r = "foldl higherBitrate b xs"
    have eq: "foldl higherBitrate b (x # xs) = ?r" using False by (simp add: higherBitrate_cases)
    from Cons.IH[of b] obtain pre post where
      split: "b # xs = pre @ ?r # post" and
      lo: "\<forall>f\<in>set pre. bitrateOrZero f < bitrateOrZero ?r" and
      hi: "\<forall>f\<in>set post. bitrateOrZero f \<le> bitrateOrZero ?r"
      by blast
    show ?thesis
    proof (cases pre)
      case Nil
      then have "b # xs = ?r # post" using split by (simp only: append_Nil)
      then have rp: "b = ?r \<and> xs = post" by (rule list.inject[THEN iffD1])
      have r: "?r = b" using conjunct1[OF rp] by (rule sym)
      have post: "post = xs" using conjunct2[OF rp] by (rule sym)
      have "b # x # xs = [] @ ?r # (x # xs)" using r by simp
      moreover have "\<forall>f\<in>set (x # xs). bitrateOrZero f \<le> bitrateOrZero ?r"
        using hi post r False by auto
      ultimately show ?thesis unfolding eq by (intro exI[of _ "[]"] exI[of _ "x # xs"]) simp
    next
      case (Cons p pre')
      then have "b # xs = p # (pre' @ ?r # post)" using split by (simp only: append_Cons)
      then have px: "b = p \<and> xs = pre' @ ?r # post" by (rule list.inject[THEN iffD1])
      have p: "p = b" using conjunct1[OF px] by (rule sym)
      have xs: "xs = pre' @ ?r # post" using px by (rule conjunct2)
      have blt: "bitrateOrZero b < bitrateOrZero ?r" using lo Cons p by simp
      have "b # x # xs = (b # x # pre') @ ?r # post" using xs by simp
      moreover have "\<forall>f\<in>set (b # x # pre'). bitrateOrZero f < bitrateOrZero ?r"
        using lo Cons p blt False by auto
      ultimately show ?thesis using hi unfolding eq
        by (intro exI[of _ "b # x # pre'"] exI[of _ post]) simp
    qed
  qed
qed

lemma foldl_higherBitrate_first:
  "foldl higherBitrate x (x # xs) = foldl higherBitrate x xs"
  by (simp add: higherBitrate_cases)

text \<open>
  Claim C2, as amended. The selection keeps the audio-only formats and fails when none is
  left; otherwise it returns the first of them that has the highest audio bitrate (a
  missing bitrate counting as 0): every candidate before it has a strictly lower bitrate
  and none after it a higher one. The container is not consulted.
\<close>

theorem selection_by_bitrate_only:
  "(filterFormats_audioonly formats = [] \<longrightarrow>
      bestAudioFormat formats = Inl (newError ''No audio formats found'')) \<and>
   (filterFormats_audioonly formats \<noteq> [] \<longrightarrow>
      (\<exists>pre best post.
         filterFormats_audioonly formats = pre @ best # post \<and>
         bestAudioFormat formats = Inr best \<and>
         (\<forall>f\<in>set pre. bitrateOrZero f < bitrateOrZero best) \<and>
         (\<forall>f\<in>set post. bitrateOrZero f \<le> bitrateOrZero best)))"
proof (cases "filterFormats_audioonly formats")
  case Nil
  then show ?thesis by (simp add: bestAudioFormat_def)
next
  case (Cons first rest)
  have best: "bestAudioFormat formats = Inr (foldl higherBitrate first rest)"
    using Cons by (simp add: bestAudioFormat_def higherBitrate_cases)
  show ?thesis
    using foldl_higherBitrate[of first rest] Cons best by auto
qed


text \<open>
  Claim C2 as stated fails on its own test case: of the audio/mp4 candidate at 128 and the
  audio/webm candidate at 256 the reduction by bitrate returns the webm one, and its URL is
  what the resolution yields.
\<close>

theorem webm_256_selected_over_mp4_128:
  "bestAudioFormat [mp4_128, webm_256] = Inr webm_256 \<and>
   bestAudioFormat [mp4_128, webm_256] \<noteq> Inr mp4_128 \<and>
   container webm_256 = ''webm'' \<and> container mp4_128 = ''mp4'' \<and>
   streamOutcome (Inr [mp4_128, webm_256]) = Inr ''https://upstream/audio.webm''"
  by (simp add: streamOutcome_def bestAudioFormat_def filterFormats_audioonly_def truthy_def
      higherBitrate_def bitrateOrZero_def mp4_128_def webm_256_def)

text \<open>The theorem on a list of a video format and the two audio formats.\<close>

theorem selection_by_bitrate_only_witness:
  "filterFormats_audioonly [mp4_video, mp4_128, webm_256] = [mp4_128, webm_256] \<and>
   (\<exists>pre best post.
      [mp4_128, webm_256] = pre @ best # post \<and>
      bestAudioFormat [mp4_video, mp4_128, webm_256] = Inr best \<and>
      list_all (\<lambda>f. bitrateOrZero f < bitrateOrZero best) pre \<and>
      list_all (\<lambda>f. bitrateOrZero f \<le> bitrateOrZero best) post)"
proof -
  have f: "filterFormats_audioonly [mp4_video, mp4_128, webm_256] = [mp4_128, webm_256]"
    by (simp add: filterFormats_audioonly_def truthy_def mp4_128_def webm_256_def mp4_video_def)
  show ?thesis
    using selection_by_bitrate_only [of "[mp4_video, mp4_128, webm_256]"]
    unfolding f list_all_iff by simp
qed

section \<open>Cache occupancy\<close>

lemma length_update:
  "length (AList.update k v al) = (if k \<in> fst ` set al then length al else Suc (length al))"
  by (induction al) auto

lemma stream_put_size:
  "length (streamUrlCache (setCachedStreamUrl now k u s)) =
     (if k \<in> fst ` set (streamUrlCache s) then length (streamUrlCache s)
      else Suc (length (streamUrlCache s)))"
  by (simp add: setCachedStreamUrl_def length_update)

lemma info_put_size:
  "length (videoInfoCache (setCachedVideoInfo now k i s)) =
     (if k \<in> fst ` set (videoInfoCache s) then length (videoInfoCache s)
      else Suc (length (videoInfoCache s)))"
  by (simp add: setCachedVideoInfo_def length_update)

lemma stream_put_keys:
  "fst ` set (streamUrlCache (setCachedStreamUrl now k u s)) = insert k (fst ` set (streamUrlCache s))"
  by (simp add: setCachedStreamUrl_def AList.dom_update)

lemma info_put_keys:
  "fst ` set (videoInfoCache (setCachedVideoInfo now k i s)) = insert k (fst ` set (videoInfoCache s))"
  by (simp add: setCachedVideoInfo_def AList.dom_update)

lemma stream_puts_size:
  "distinct (map (\<lambda>p. fst (snd p)) puts) \<Longrightarrow>
   (\<forall>p\<in>set puts. fst (snd p) \<notin> fst ` set (streamUrlCache s)) \<Longrightarrow>
   length (streamUrlCache (setAllStreamUrls puts s)) = length (streamUrlCache s) + length puts"
proof (induction puts arbitrary: s)
  case Nil
  then show ?case by (simp add: setAllStreamUrls_def)
next
  case (Cons p puts)
  obtain now k u where p: "p = (now, k, u)" by (cases p) auto
  let ?s1 = "setCachedStreamUrl now k u s"
  have step: "setAllStreamUrls (p # puts) s = setAllStreamUrls puts ?s1"
    by (simp add: setAllStreamUrls_def p)
  have new: "k \<notin> fst ` set (streamUrlCache s)" using Cons.prems(2) p by auto
  have d: "distinct (map (\<lambda>p. fst (snd p)) puts)" using Cons.prems(1) by simp
  have fresh: "\<forall>q\<in>set puts. fst (snd q) \<notin> fst ` set (streamUrlCache ?s1)"
    using Cons.prems p by (auto simp: stream_put_keys)
  show ?case
    using Cons.IH[OF d fresh] new by (simp add: step stream_put_size)
qed

lemma info_puts_size:
  "distinct (map (\<lambda>p. fst (snd p)) puts) \<Longrightarrow>
   (\<forall>p\<in>set puts. fst (snd p) \<notin> fst ` set (videoInfoCache s)) \<Longrightarrow>
   length (videoInfoCache (setAllVideoInfos puts s)) = length (videoInfoCache s) + length puts"
proof (induction puts arbitrary: s)
  case Nil
  then show ?case by (simp add: setAllVideoInfos_def)
next
  case (Cons p puts)
  obtain now k i where p: "p = (now, k, i)" by (cases p) auto
  let ?s1 = "setCachedVideoInfo now k i s"
  have step: "setAllVideoInfos (p # puts) s = setAllVideoInfos puts ?s1"
    by (simp add: setAllVideoInfos_def p)
  have new: "k \<notin> fst ` set (videoInfoCache s)" using Cons.prems(2) p by auto
  have d: "distinct (map (\<lambda>p. fst (snd p)) puts)" using Cons.prems(1) by simp
  have fresh: "\<forall>q\<in>set puts. fst (snd q) \<notin> fst ` set (videoInfoCache ?s1)"
    using Cons.prems p by (auto simp: info_put_keys)
  show ?case
    using Cons.IH[OF d fresh] new by (simp add: step info_put_size)
qed

text \<open>
  Claim C4, as amended. Neither cache has a maximum entry count: a store under a key that
  is not in the cache always adds an entry, and a store under a key that is there replaces
  it. So a sequence of stores under distinct keys, none of them cached before, makes the
  cache grow by the length of the sequence.
\<close>

theorem caches_unbounded:
  "length (streamUrlCache (setCachedStreamUrl now k u s)) =
     (if k \<in> fst ` set (streamUrlCache s) then length (streamUrlCache s)
      else length (streamUrlCache s) + 1) \<and>
   length (videoInfoCache (setCachedVideoInfo now k i s)) =
     (if k \<in> fst ` set (videoInfoCache s) then length (videoInfoCache s)
      else length (videoInfoCache s) + 1) \<and>
   (distinct (map (\<lambda>p. fst (snd p)) puts) \<and>
    (\<forall>p\<in>set puts. fst (snd p) \<notin> fst ` set (streamUrlCache s)) \<longrightarrow>
      length (streamUrlCache (setAllStreamUrls puts s)) = length (streamUrlCache s) + length puts) \<and>
   (distinct (map (\<lambda>p. fst (snd p)) iputs) \<and>
    (\<forall>p\<in>set iputs. fst (snd p) \<notin> fst ` set (videoInfoCache s)) \<longrightarrow>
      length (videoInfoCache (setAllVideoInfos iputs s)) = length (videoInfoCache s) + length iputs)"
  by (simp add: stream_put_size info_put_size stream_puts_size info_puts_size)

lemma exampleIds_match: "x \<in> set exampleIds \<Longrightarrow> matchesId x"
proof -
  assume "x \<in> set exampleIds"
  then obtain ds where x: "x = ''aaaaaaa'' @ ds" and ds: "ds \<in> set (List.n_lists 4 ''0123456789'')"
    by (auto simp: exampleIds_def)
  have len: "length ds = 4" and sub: "set ds \<subseteq> set ''0123456789''"
    using ds by (simp_all add: set_n_lists)
  have "set ''0123456789'' \<subseteq> set idChars" by (simp add: idChars_def)
  then have "list_all idChar ds" using sub by (auto simp: list_all_iff idChar_def)
  moreover have "idChar (CHR ''a'')" by (simp add: idChar_def idChars_def)
  ultimately show ?thesis using len by (simp add: matchesId_def x)
qed

lemma exampleIds_distinct: "distinct exampleIds"
  unfolding exampleIds_def
  by (rule distinct_n_lists[THEN distinct_map[THEN iffD2, OF conjI]]) (auto simp: inj_on_def)

lemma exampleIds_length: "length exampleIds = 10000"
proof -
  have l: "length ''0123456789'' = 10" by simp
  show ?thesis by (simp only: exampleIds_def length_map length_n_lists l) simp
qed

text \<open>
  Claim C4 as stated fails: \<open>streamUrlCache\<close> is a plain \<open>Map\<close> and no bound is
  configured for it. Stores under 1001 distinct valid identifiers leave 1001 entries, more
  than the 1000 that the earlier variant of the server, kept under \<open>.history\<close>, set as the
  maximum of its cache.
\<close>

theorem a_thousand_and_one_entries:
  "list_all matchesId (take 1001 exampleIds) \<and>
   distinct (take 1001 exampleIds) \<and>
   length (streamUrlCache
             (setAllStreamUrls (map (\<lambda>vid. (0, vid, ''https://u'')) (take 1001 exampleIds))
                initial)) = 1001 \<and>
   \<not> length (streamUrlCache
             (setAllStreamUrls (map (\<lambda>vid. (0, vid, ''https://u'')) (take 1001 exampleIds))
                initial)) \<le> 1000"
proof -
  let ?puts = "map (\<lambda>vid. (0::int, vid, ''https://u'')) (take 1001 exampleIds)"
  have keys: "map (\<lambda>p. fst (snd p)) ?puts = take 1001 exampleIds"
    by (simp add: comp_def)
  have d: "distinct (take 1001 exampleIds)"
    using exampleIds_distinct by (rule distinct_take)
  have m: "list_all matchesId (take 1001 exampleIds)"
    using exampleIds_match by (auto simp: list_all_iff dest: in_set_takeD)
  have "length (streamUrlCache (setAllStreamUrls ?puts initial)) =
      length (streamUrlCache initial) + length ?puts"
  proof (rule stream_puts_size)
    show "distinct (map (\<lambda>p. fst (snd p)) ?puts)" using d by (simp only: keys)
    show "\<forall>p\<in>set ?puts. fst (snd p) \<notin> fst ` set (streamUrlCache initial)"
      by (simp add: initial_def)
  qed
  then have n: "length (streamUrlCache (setAllStreamUrls ?puts initial)) = 1001"
    by (simp add: initial_def exampleIds_length)
  show ?thesis using d m n by simp
qed

text \<open>The theorem on two stores of URLs and one store of metadata.\<close>

theorem caches_unbounded_witness:
  "length (streamUrlCache
             (setAllStreamUrls [(0, ''dQw4w9WgXcQ'', ''https://u''), (5, ''kJQP7kiw5Fk'', ''https://v'')]
                initial)) = 2 \<and>
   length (videoInfoCache
             (setAllVideoInfos
                [(0, ''dQw4w9WgXcQ'',
                  \<lparr>videoId = ''dQw4w9WgXcQ'', title = ''t'', channelName = ''c'', thumbnail = [],
                    duration = 212\<rparr>)]
                initial)) = 1"
  using caches_unbounded
    [of 0 "''dQw4w9WgXcQ''" "''https://u''" initial undefined
        "[(0, ''dQw4w9WgXcQ'', ''https://u''), (5, ''kJQP7kiw5Fk'', ''https://v'')]"
        "[(0, ''dQw4w9WgXcQ'',
           \<lparr>videoId = ''dQw4w9WgXcQ'', title = ''t'', channelName = ''c'', thumbnail = [],
             duration = 212\<rparr>)]"]
  by (simp add: initial_def)

section \<open>The pending map on every run\<close>

lemma consistentI:
  assumes "\<And>p vid. p < length (promises s) \<Longrightarrow> promises s ! p = (vid, None) \<Longrightarrow>
             map_of (pendingStreamRequests s) vid = Some p \<and> map_of (streamUrlCache s) vid = None"
    and "\<And>vid p. map_of (pendingStreamRequests s) vid = Some p \<Longrightarrow>
             p < length (promises s) \<and> promises s ! p = (vid, None)"
    and "\<And>k c. (k, c) \<in> set (streamUrlCache s) \<Longrightarrow> content c \<noteq> []"
  shows "consistent s"
proof -
  have a: "\<forall>p vid. p < length (promises s) \<and> promises s ! p = (vid, None) \<longrightarrow>
         map_of (pendingStreamRequests s) vid = Some p \<and> map_of (streamUrlCache s) vid = None"
    using assms(1) by blast
  have b: "\<forall>vid p. map_of (pendingStreamRequests s) vid = Some p \<longrightarrow>
         p < length (promises s) \<and> promises s ! p = (vid, None)"
    using assms(2) by blast
  have c: "\<forall>kv\<in>set (streamUrlCache s). content (snd kv) \<noteq> []"
  proof
    fix kv
    assume "kv \<in> set (streamUrlCache s)"
    then have "(fst kv, snd kv) \<in> set (streamUrlCache s)" by simp
    then show "content (snd kv) \<noteq> []" by (rule assms(3))
  qed
  show ?thesis unfolding consistent_def using a b c by (intro conjI)
qed

lemma consistent_inflight:
  assumes "consistent s" "p < length (promises s)" "promises s ! p = (vid, None)"
  shows "map_of (pendingStreamRequests s) vid = Some p" "map_of (streamUrlCache s) vid = None"
  using assms unfolding consistent_def by blast+

lemma consistent_pending:
  assumes "consistent s" "map_of (pendingStreamRequests s) vid = Some p"
  shows "p < length (promises s)" "promises s ! p = (vid, None)"
  using assms unfolding consistent_def by blast+

lemma consistent_cached:
  assumes "consistent s" "(k, c) \<in> set (streamUrlCache s)"
  shows "content c \<noteq> []"
proof -
  have "\<forall>kv\<in>set (streamUrlCache s). content (snd kv) \<noteq> []"
    using assms(1) unfolding consistent_def by (elim conjE)
  then have "content (snd (k, c)) \<noteq> []" using assms(2) by (rule bspec)
  then show ?thesis by simp
qed

lemma consistent_initial: "consistent initial"
  by (simp add: consistent_def initial_def)

lemma set_delete_subset: "set (AList.delete k al) \<subseteq> set al"
  by (induction al) auto

lemma set_update_subset: "set (AList.update k v al) \<subseteq> insert (k, v) (set al)"
  by (induction al) auto

lemma map_of_filter_None: "map_of al k = None \<Longrightarrow> map_of (filter P al) k = None"
  by (induction al) (auto split: if_splits)

lemma consistent_cache_shrinks:
  assumes "consistent s"
    and "set c' \<subseteq> set (streamUrlCache s)"
    and "\<And>k. map_of (streamUrlCache s) k = None \<Longrightarrow> map_of c' k = None"
  shows "consistent (s\<lparr>streamUrlCache := c'\<rparr>)"
proof (rule consistentI)
  fix p vid
  assume "p < length (promises (s\<lparr>streamUrlCache := c'\<rparr>))"
    and "promises (s\<lparr>streamUrlCache := c'\<rparr>) ! p = (vid, None)"
  then show "map_of (pendingStreamRequests (s\<lparr>streamUrlCache := c'\<rparr>)) vid = Some p \<and>
      map_of (streamUrlCache (s\<lparr>streamUrlCache := c'\<rparr>)) vid = None"
    using consistent_inflight[OF assms(1), of p vid] assms(3) by simp
next
  fix vid p
  assume "map_of (pendingStreamRequests (s\<lparr>streamUrlCache := c'\<rparr>)) vid = Some p"
  then show "p < length (promises (s\<lparr>streamUrlCache := c'\<rparr>)) \<and>
      promises (s\<lparr>streamUrlCache := c'\<rparr>) ! p = (vid, None)"
    using consistent_pending[OF assms(1), of vid p] by simp
next
  fix k c
  assume "(k, c) \<in> set (streamUrlCache (s\<lparr>streamUrlCache := c'\<rparr>))"
  then show "content c \<noteq> []"
    using consistent_cached[OF assms(1), of k c] assms(2) by auto
qed

lemma consistent_getCached:
  assumes "consistent s"
  shows "consistent (snd (getCachedStreamUrl now vid s))"
proof (cases "map_of (streamUrlCache s) vid")
  case None
  then show ?thesis using assms by (simp add: getCachedStreamUrl_def)
next
  case (Some c)
  show ?thesis
  proof (cases "now - timestamp c > STREAM_CACHE_TTL_MS")
    case True
    have "consistent (s\<lparr>streamUrlCache := AList.delete vid (streamUrlCache s)\<rparr>)"
      by (rule consistent_cache_shrinks[OF assms set_delete_subset])
        (simp add: AList.delete_conv')
    then show ?thesis using Some True by (simp add: getCachedStreamUrl_def)
  next
    case False
    then show ?thesis using Some assms by (simp add: getCachedStreamUrl_def)
  qed
qed

lemma getCached_result:
  assumes "consistent s"
  shows "(\<exists>u. getCachedStreamUrl now vid s = (Some u, s) \<and> u \<noteq> []) \<or>
         (fst (getCachedStreamUrl now vid s) = None \<and>
          map_of (streamUrlCache (snd (getCachedStreamUrl now vid s))) vid = None \<and>
          pendingStreamRequests (snd (getCachedStreamUrl now vid s)) = pendingStreamRequests s \<and>
          promises (snd (getCachedStreamUrl now vid s)) = promises s)"
proof (cases "map_of (streamUrlCache s) vid")
  case None
  then show ?thesis by (simp add: getCachedStreamUrl_def)
next
  case (Some c)
  then have "(vid, c) \<in> set (streamUrlCache s)" by (rule map_of_SomeD)
  then have "content c \<noteq> []" using consistent_cached[OF assms] by blast
  then show ?thesis using Some
    by (simp add: getCachedStreamUrl_def AList.delete_conv')
qed


lemma fetch_hit:
  "getCachedStreamUrl now vid s = (Some u, s') \<Longrightarrow> u \<noteq> [] \<Longrightarrow>
   fetchStreamUrl now vid s = (Cached u, s')"
  by (simp add: fetchStreamUrl_def truthy_def)

lemma fetch_attach:
  "fst (getCachedStreamUrl now vid s) = None \<Longrightarrow>
   map_of (pendingStreamRequests (snd (getCachedStreamUrl now vid s))) vid = Some p \<Longrightarrow>
   fetchStreamUrl now vid s = (Promise p, snd (getCachedStreamUrl now vid s))"
  by (cases "getCachedStreamUrl now vid s") (simp add: fetchStreamUrl_def truthy_def)

lemma fetch_start:
  "fst (getCachedStreamUrl now vid s) = None \<Longrightarrow>
   map_of (pendingStreamRequests (snd (getCachedStreamUrl now vid s))) vid = None \<Longrightarrow>
   fetchStreamUrl now vid s =
     (Promise (length (promises (snd (getCachedStreamUrl now vid s)))),
      (snd (getCachedStreamUrl now vid s))
        \<lparr>promises := promises (snd (getCachedStreamUrl now vid s)) @ [(vid, None)],
         pendingStreamRequests :=
           AList.update vid (length (promises (snd (getCachedStreamUrl now vid s))))
             (pendingStreamRequests (snd (getCachedStreamUrl now vid s)))\<rparr>)"
  by (cases "getCachedStreamUrl now vid s") (simp add: fetchStreamUrl_def truthy_def Let_def)

lemma consistent_start:
  assumes c: "consistent s"
    and cache: "map_of (streamUrlCache s) vid = None"
    and pend: "map_of (pendingStreamRequests s) vid = None"
  shows "consistent (s\<lparr>promises := promises s @ [(vid, None)],
           pendingStreamRequests := AList.update vid (length (promises s)) (pendingStreamRequests s)\<rparr>)"
    (is "consistent ?s'")
proof (rule consistentI)
  fix p v
  assume lt: "p < length (promises ?s')" and nth: "promises ?s' ! p = (v, None)"
  show "map_of (pendingStreamRequests ?s') v = Some p \<and> map_of (streamUrlCache ?s') v = None"
  proof (cases "p < length (promises s)")
    case True
    then have old: "promises s ! p = (v, None)" using nth by (simp add: nth_append)
    have pv: "map_of (pendingStreamRequests s) v = Some p" and cv: "map_of (streamUrlCache s) v = None"
      using consistent_inflight[OF c True old] by simp_all
    have "v \<noteq> vid" using pv pend by auto
    then show ?thesis using pv cv by (simp add: AList.update_conv')
  next
    case False
    then have p: "p = length (promises s)" using lt by simp
    then have "v = vid" using nth by simp
    then show ?thesis using p cache by (simp add: AList.update_conv')
  qed
next
  fix v p
  assume m: "map_of (pendingStreamRequests ?s') v = Some p"
  show "p < length (promises ?s') \<and> promises ?s' ! p = (v, None)"
  proof (cases "v = vid")
    case True
    then have "p = length (promises s)" using m by (simp add: AList.update_conv')
    then show ?thesis using True by simp
  next
    case False
    then have "map_of (pendingStreamRequests s) v = Some p" using m by (simp add: AList.update_conv')
    then have "p < length (promises s)" "promises s ! p = (v, None)"
      using consistent_pending[OF c] by blast+
    then show ?thesis by (simp add: nth_append)
  qed
next
  fix k e
  assume "(k, e) \<in> set (streamUrlCache ?s')"
  then show "content e \<noteq> []" using consistent_cached[OF c, of k e] by simp
qed

lemma consistent_fetch:
  assumes "consistent s"
  shows "consistent (snd (fetchStreamUrl now vid s))"
proof -
  let ?s1 = "snd (getCachedStreamUrl now vid s)"
  have c1: "consistent ?s1" using assms by (rule consistent_getCached)
  from getCached_result[OF assms, of now vid]
  show ?thesis
  proof
    assume "\<exists>u. getCachedStreamUrl now vid s = (Some u, s) \<and> u \<noteq> []"
    then obtain u where "getCachedStreamUrl now vid s = (Some u, s)" "u \<noteq> []" by blast
    then show ?thesis using assms by (simp add: fetch_hit)
  next
    assume miss: "fst (getCachedStreamUrl now vid s) = None \<and>
          map_of (streamUrlCache ?s1) vid = None \<and>
          pendingStreamRequests ?s1 = pendingStreamRequests s \<and>
          promises ?s1 = promises s"
    show ?thesis
    proof (cases "map_of (pendingStreamRequests ?s1) vid")
      case None
      have "consistent (?s1\<lparr>promises := promises ?s1 @ [(vid, None)],
           pendingStreamRequests := AList.update vid (length (promises ?s1)) (pendingStreamRequests ?s1)\<rparr>)"
        using c1 miss None by (intro consistent_start) simp_all
      then show ?thesis using miss None by (simp only: fetch_start snd_conv)
    next
      case (Some p)
      then show ?thesis using miss c1 by (simp only: fetch_attach snd_conv)
    qed
  qed
qed


lemma streamOutcome_url: "streamOutcome r = Inr u \<Longrightarrow> u \<noteq> []"
  by (auto simp: streamOutcome_def split: sum.splits option.splits if_splits)

lemma settle_skip:
  "\<not> (p < length (promises s) \<and> snd (promises s ! p) = None) \<Longrightarrow> getInfoSettles now p r s = s"
  unfolding getInfoSettles_def by (simp only: if_False)

lemma settle_failure:
  assumes "p < length (promises s)" "promises s ! p = (vid, None)" "streamOutcome r = Inl e"
  shows "getInfoSettles now p r s =
    s\<lparr>pendingStreamRequests := AList.delete vid (pendingStreamRequests s),
      promises := (promises s)[p := (vid, Some (Inl e))]\<rparr>"
  using assms by (simp add: getInfoSettles_def Let_def)

lemma settle_success:
  assumes "p < length (promises s)" "promises s ! p = (vid, None)" "streamOutcome r = Inr u"
  shows "getInfoSettles now p r s =
    s\<lparr>streamUrlCache := AList.update vid \<lparr>content = u, timestamp = now\<rparr> (streamUrlCache s),
      pendingStreamRequests := AList.delete vid (pendingStreamRequests s),
      promises := (promises s)[p := (vid, Some (Inr u))]\<rparr>"
  using assms by (simp add: getInfoSettles_def Let_def setCachedStreamUrl_def)

lemma consistent_settled:
  assumes c: "consistent s"
    and p: "p < length (promises s)" "promises s ! p = (vid, None)"
    and cache: "set c' \<subseteq> insert (vid, e) (set (streamUrlCache s))" "content e \<noteq> []"
      "\<And>k. k \<noteq> vid \<Longrightarrow> map_of c' k = map_of (streamUrlCache s) k"
  shows "consistent (s\<lparr>streamUrlCache := c',
           pendingStreamRequests := AList.delete vid (pendingStreamRequests s),
           promises := (promises s)[p := (vid, Some result)]\<rparr>)"
    (is "consistent ?s'")
proof (rule consistentI)
  fix q v
  assume lt: "q < length (promises ?s')" and nth: "promises ?s' ! q = (v, None)"
  have qp: "q \<noteq> p" using nth p(1) by auto
  then have old: "promises s ! q = (v, None)" and lt': "q < length (promises s)"
    using nth lt by simp_all
  have pv: "map_of (pendingStreamRequests s) v = Some q" and cv: "map_of (streamUrlCache s) v = None"
    using consistent_inflight[OF c lt' old] by simp_all
  have "map_of (pendingStreamRequests s) vid = Some p"
    using consistent_inflight(1)[OF c p] .
  then have "v \<noteq> vid" using pv qp by auto
  then show "map_of (pendingStreamRequests ?s') v = Some q \<and> map_of (streamUrlCache ?s') v = None"
    using pv cv cache(3) by (simp add: AList.delete_conv')
next
  fix v q
  assume m: "map_of (pendingStreamRequests ?s') v = Some q"
  then have ne: "v \<noteq> vid" by (auto simp: AList.delete_conv' split: if_splits)
  then have pv: "map_of (pendingStreamRequests s) v = Some q"
    using m by (simp add: AList.delete_conv')
  then have q: "q < length (promises s)" "promises s ! q = (v, None)"
    using consistent_pending[OF c] by blast+
  have "q \<noteq> p" using q(2) p(2) ne by auto
  then show "q < length (promises ?s') \<and> promises ?s' ! q = (v, None)"
    using q by simp
next
  fix k x
  assume "(k, x) \<in> set (streamUrlCache ?s')"
  then have "(k, x) = (vid, e) \<or> (k, x) \<in> set (streamUrlCache s)" using cache(1) by auto
  then show "content x \<noteq> []" using cache(2) consistent_cached[OF c, of k x] by auto
qed

lemma consistent_settle:
  assumes c: "consistent s"
  shows "consistent (getInfoSettles now p r s)"
proof (cases "p < length (promises s) \<and> snd (promises s ! p) = None")
  case False
  then show ?thesis using c by (simp add: settle_skip)
next
  case True
  then obtain vid where p: "p < length (promises s)" "promises s ! p = (vid, None)"
    by (cases "promises s ! p") auto
  show ?thesis
  proof (cases "streamOutcome r")
    case (Inl e)
    have "consistent (s\<lparr>streamUrlCache := streamUrlCache s,
           pendingStreamRequests := AList.delete vid (pendingStreamRequests s),
           promises := (promises s)[p := (vid, Some (Inl e))]\<rparr>)"
      by (rule consistent_settled[OF c p, where e = "\<lparr>content = ''x'', timestamp = 0\<rparr>"]) auto
    then show ?thesis by (simp add: settle_failure[OF p Inl])
  next
    case (Inr u)
    have u: "u \<noteq> []" using Inr by (rule streamOutcome_url)
    have "consistent (s\<lparr>streamUrlCache :=
             AList.update vid \<lparr>content = u, timestamp = now\<rparr> (streamUrlCache s),
           pendingStreamRequests := AList.delete vid (pendingStreamRequests s),
           promises := (promises s)[p := (vid, Some (Inr u))]\<rparr>)"
    proof (rule consistent_settled[OF c p, where e = "\<lparr>content = u, timestamp = now\<rparr>"])
      show "set (AList.update vid \<lparr>content = u, timestamp = now\<rparr> (streamUrlCache s))
          \<subseteq> insert (vid, \<lparr>content = u, timestamp = now\<rparr>) (set (streamUrlCache s))"
        by (rule set_update_subset)
      show "content \<lparr>content = u, timestamp = now\<rparr> \<noteq> []" using u by simp
      show "map_of (AList.update vid \<lparr>content = u, timestamp = now\<rparr> (streamUrlCache s)) k
          = map_of (streamUrlCache s) k" if "k \<noteq> vid" for k
        using that by (simp add: AList.update_conv')
    qed
    then show ?thesis by (simp add: settle_success[OF p Inr])
  qed
qed

lemma consistent_info: "consistent (s\<lparr>videoInfoCache := c\<rparr>) = consistent s"
  by (simp add: consistent_def)

lemma consistent_step:
  assumes "consistent s"
  shows "consistent (step e s)"
proof (cases e)
  case (FetchStreamUrl now vid)
  then show ?thesis using assms by (simp add: consistent_fetch)
next
  case (GetInfoSettles now p r)
  then show ?thesis using assms by (simp add: consistent_settle)
next
  case (GetCachedStreamUrl now vid)
  then show ?thesis using assms by (simp add: consistent_getCached)
next
  case (SetCachedVideoInfo now vid i)
  then show ?thesis using assms by (simp add: setCachedVideoInfo_def consistent_info)
next
  case (GetCachedVideoInfo now vid)
  then show ?thesis using assms
    by (simp add: getCachedVideoInfo_def consistent_info split: option.splits)
next
  case CacheClear
  have "consistent (s\<lparr>streamUrlCache := []\<rparr>)"
    by (rule consistent_cache_shrinks[OF assms]) simp_all
  then have "consistent (s\<lparr>streamUrlCache := []\<rparr>\<lparr>videoInfoCache := []\<rparr>)"
    by (simp only: consistent_info)
  then show ?thesis using CacheClear by (simp add: cacheClear_def)
next
  case (CacheCleanup now)
  let ?c = "filter (\<lambda>kv. \<not> now - timestamp (snd kv) > STREAM_CACHE_TTL_MS) (streamUrlCache s)"
  let ?i = "filter (\<lambda>kv. \<not> now - timestamp (snd kv) > INFO_CACHE_TTL_MS) (videoInfoCache s)"
  have "consistent (s\<lparr>streamUrlCache := ?c\<rparr>)"
    by (rule consistent_cache_shrinks[OF assms]) (simp_all add: map_of_filter_None)
  then have "consistent (s\<lparr>streamUrlCache := ?c\<rparr>\<lparr>videoInfoCache := ?i\<rparr>)"
    by (simp only: consistent_info)
  then show ?thesis using CacheCleanup by (simp add: cacheCleanup_def)
qed

lemma run_snoc: "run (evs @ [e]) = step e (run evs)"
  by (simp add: run_def)

lemma consistent_run: "consistent (run evs)"
proof (induction evs rule: rev_induct)
  case Nil
  show ?case by (simp add: run_def consistent_initial)
next
  case (snoc e evs)
  then show ?case by (simp add: run_snoc consistent_step)
qed

section \<open>Extractions in flight\<close>

text \<open>
  On a consistent server an identifier has at most one promise in flight, a call for
  it joins that promise, and a call for an identifier with nothing cached and nothing
  in flight starts one.
\<close>

lemma mem_inFlight:
  "p \<in> set (inFlight s vid) \<longleftrightarrow> p < length (promises s) \<and> promises s ! p = (vid, None)"
  by (auto simp: inFlight_def)

lemma distinct_inFlight: "distinct (inFlight s vid)"
  by (simp add: inFlight_def)

lemma length_le_one:
  assumes "distinct xs" "\<And>x. x \<in> set xs \<Longrightarrow> x = a"
  shows "length xs \<le> 1"
proof -
  have "set xs \<subseteq> {a}" using assms(2) by auto
  then have "card (set xs) \<le> card {a}" by (intro card_mono) simp_all
  then show ?thesis using assms(1) by (simp add: distinct_card)
qed

lemma inFlight_pending:
  assumes "consistent s" "p \<in> set (inFlight s vid)"
  shows "map_of (pendingStreamRequests s) vid = Some p" "map_of (streamUrlCache s) vid = None"
  using assms consistent_inflight[of s p vid] by (simp_all add: mem_inFlight)

lemma inFlight_single:
  assumes "consistent s" "p \<in> set (inFlight s vid)"
  shows "inFlight s vid = [p]"
proof -
  have all: "q = p" if "q \<in> set (inFlight s vid)" for q
    using inFlight_pending(1)[OF assms(1) that] inFlight_pending(1)[OF assms] by simp
  have "length (inFlight s vid) \<le> 1"
    using distinct_inFlight all by (rule length_le_one)
  then show ?thesis using assms(2) all
    by (cases "inFlight s vid") auto
qed

lemma inFlight_at_most_one:
  assumes "consistent s"
  shows "length (inFlight s vid) \<le> 1"
proof (cases "inFlight s vid")
  case Nil
  then show ?thesis by simp
next
  case (Cons p ps)
  then have "p \<in> set (inFlight s vid)" by simp
  then have "inFlight s vid = [p]" by (rule inFlight_single[OF assms])
  then show ?thesis by simp
qed

lemma pending_none:
  assumes "consistent s" "inFlight s vid = []"
  shows "map_of (pendingStreamRequests s) vid = None"
proof (cases "map_of (pendingStreamRequests s) vid")
  case None
  then show ?thesis .
next
  case (Some p)
  then have "p \<in> set (inFlight s vid)"
    using consistent_pending[OF assms(1) Some] by (simp add: mem_inFlight)
  then show ?thesis using assms(2) by simp
qed

lemma fetch_joins:
  assumes "consistent s" "p \<in> set (inFlight s vid)"
  shows "fetchStreamUrl now vid s = (Promise p, s)"
proof -
  have miss: "getCachedStreamUrl now vid s = (None, s)"
    using inFlight_pending(2)[OF assms] by (simp add: getCachedStreamUrl_def)
  show ?thesis
    using fetch_attach[of now vid s p] miss inFlight_pending(1)[OF assms] by simp
qed

lemma fetchAll_joins:
  assumes "consistent s" "p \<in> set (inFlight s vid)"
  shows "fetchAll ts vid s = (replicate (length ts) (Promise p), s)"
  by (induction ts) (simp_all add: fetch_joins[OF assms])

lemma inFlight_append:
  "inFlight (s\<lparr>promises := promises s @ [(v, None)], pendingStreamRequests := pend\<rparr>) vid =
     inFlight s vid @ (if v = vid then [length (promises s)] else [])"
proof -
  have "filter (\<lambda>p. (promises s @ [(v, None)]) ! p = (vid, None)) [0..<length (promises s)] =
      filter (\<lambda>p. promises s ! p = (vid, None)) [0..<length (promises s)]"
    by (rule filter_cong) (simp_all add: nth_append)
  then show ?thesis by (simp add: inFlight_def)
qed

lemma extractions_append:
  "extractions (s\<lparr>promises := promises s @ [(v, None)], pendingStreamRequests := pend\<rparr>) vid =
     extractions s vid + (if v = vid then 1 else 0)"
  by (simp add: extractions_def)


lemma inFlight_promises: "promises a = promises b \<Longrightarrow> inFlight a vid = inFlight b vid"
  by (simp add: inFlight_def)

lemma extractions_promises: "promises a = promises b \<Longrightarrow> extractions a vid = extractions b vid"
  by (simp add: extractions_def)

lemma fetch_starts:
  assumes c: "consistent s"
    and miss: "fst (getCachedStreamUrl now vid s) = None"
    and idle: "inFlight s vid = []"
  shows "fst (fetchStreamUrl now vid s) = Promise (length (promises s))"
    and "promises (snd (fetchStreamUrl now vid s)) = promises s @ [(vid, None)]"
    and "inFlight (snd (fetchStreamUrl now vid s)) vid = [length (promises s)]"
    and "extractions (snd (fetchStreamUrl now vid s)) vid = extractions s vid + 1"
    and "streamUrlCache (snd (fetchStreamUrl now vid s)) =
           streamUrlCache (snd (getCachedStreamUrl now vid s))"
proof -
  let ?s1 = "snd (getCachedStreamUrl now vid s)"
  have s1: "pendingStreamRequests ?s1 = pendingStreamRequests s" "promises ?s1 = promises s"
    using getCached_result[OF c, of now vid] miss by auto
  have pend: "map_of (pendingStreamRequests ?s1) vid = None"
    using pending_none[OF c idle] s1 by simp
  note eq = fetch_start[OF miss pend]
  show "fst (fetchStreamUrl now vid s) = Promise (length (promises s))"
    by (simp add: eq s1)
  show "promises (snd (fetchStreamUrl now vid s)) = promises s @ [(vid, None)]"
    by (simp add: eq s1)
  have "inFlight (snd (fetchStreamUrl now vid s)) vid = inFlight ?s1 vid @ [length (promises ?s1)]"
    by (simp add: eq inFlight_append)
  then show "inFlight (snd (fetchStreamUrl now vid s)) vid = [length (promises s)]"
    using inFlight_promises[OF s1(2), of vid] idle s1 by simp
  have "extractions (snd (fetchStreamUrl now vid s)) vid = extractions ?s1 vid + 1"
    by (simp add: eq extractions_append)
  then show "extractions (snd (fetchStreamUrl now vid s)) vid = extractions s vid + 1"
    using extractions_promises[OF s1(2), of vid] by simp
  show "streamUrlCache (snd (fetchStreamUrl now vid s)) = streamUrlCache ?s1"
    by (simp add: eq)
qed

lemma fetchAll_Cons:
  "fetchAll (t # ts) vid s =
     (fst (fetchStreamUrl t vid s) # fst (fetchAll ts vid (snd (fetchStreamUrl t vid s))),
      snd (fetchAll ts vid (snd (fetchStreamUrl t vid s))))"
  by (simp add: Let_def split: prod.splits)

lemma fetchAll_cold:
  assumes c: "consistent s"
    and miss: "fst (getCachedStreamUrl t vid s) = None"
    and idle: "inFlight s vid = []"
  shows "fetchAll (t # ts) vid s =
    (replicate (Suc (length ts)) (Promise (length (promises s))), snd (fetchStreamUrl t vid s))"
proof -
  let ?s2 = "snd (fetchStreamUrl t vid s)"
  have c2: "consistent ?s2" using c by (rule consistent_fetch)
  have "length (promises s) \<in> set (inFlight ?s2 vid)"
    using fetch_starts(3)[OF c miss idle] by simp
  then have "fetchAll ts vid ?s2 = (replicate (length ts) (Promise (length (promises s))), ?s2)"
    by (rule fetchAll_joins[OF c2])
  then show ?thesis
    using fetch_starts(1)[OF c miss idle] unfolding fetchAll_Cons by simp
qed

text \<open>Settlement of the promise in flight.\<close>

lemma settle_state:
  assumes c: "consistent s" and p: "p \<in> set (inFlight s vid)"
  shows "promises (getInfoSettles now p r s) = (promises s)[p := (vid, Some (streamOutcome r))]"
    and "pendingStreamRequests (getInfoSettles now p r s) = AList.delete vid (pendingStreamRequests s)"
    and "streamUrlCache (getInfoSettles now p r s) =
      (case streamOutcome r of
         Inl e \<Rightarrow> streamUrlCache s
       | Inr u \<Rightarrow> AList.update vid \<lparr>content = u, timestamp = now\<rparr> (streamUrlCache s))"
proof -
  have q: "p < length (promises s)" "promises s ! p = (vid, None)"
    using p by (simp_all add: mem_inFlight)
  show "promises (getInfoSettles now p r s) = (promises s)[p := (vid, Some (streamOutcome r))]"
    by (cases "streamOutcome r") (simp_all add: settle_failure[OF q] settle_success[OF q])
  show "pendingStreamRequests (getInfoSettles now p r s) = AList.delete vid (pendingStreamRequests s)"
    by (cases "streamOutcome r") (simp_all add: settle_failure[OF q] settle_success[OF q])
  show "streamUrlCache (getInfoSettles now p r s) =
      (case streamOutcome r of
         Inl e \<Rightarrow> streamUrlCache s
       | Inr u \<Rightarrow> AList.update vid \<lparr>content = u, timestamp = now\<rparr> (streamUrlCache s))"
    by (cases "streamOutcome r") (simp_all add: settle_failure[OF q] settle_success[OF q])
qed

lemma settle_await:
  assumes c: "consistent s" and p: "p \<in> set (inFlight s vid)"
  shows "await (getInfoSettles now p r s) (Promise p) = Some (streamOutcome r)"
proof -
  have "p < length (promises s)" using p by (simp add: mem_inFlight)
  then show ?thesis by (simp add: await_def settle_state(1)[OF c p])
qed

lemma settle_idle:
  assumes c: "consistent s" and p: "p \<in> set (inFlight s vid)"
  shows "inFlight (getInfoSettles now p r s) vid = []"
proof -
  have one: "inFlight s vid = [p]" using c p by (rule inFlight_single)
  have "q \<notin> set (inFlight (getInfoSettles now p r s) vid)" for q
  proof
    assume "q \<in> set (inFlight (getInfoSettles now p r s) vid)"
    then have q: "q < length (promises s)"
      "(promises s)[p := (vid, Some (streamOutcome r))] ! q = (vid, None)"
      by (simp_all add: mem_inFlight settle_state(1)[OF c p])
    then have "q \<noteq> p" by auto
    then have "q \<in> set (inFlight s vid)" using q by (simp add: mem_inFlight)
    then show False using one \<open>q \<noteq> p\<close> by simp
  qed
  then show ?thesis by (cases "inFlight (getInfoSettles now p r s) vid") auto
qed


lemma inFlight_unsettled:
  "p \<in> set (inFlight s vid) \<Longrightarrow> await s (Promise p) = None"
  by (simp add: mem_inFlight await_def)

lemma fetchAll_shared:
  assumes c: "consistent s" and miss: "fst (getCachedStreamUrl t vid s) = None"
  shows "fst (fetchAll (t # ts) vid s) =
           replicate (Suc (length ts))
             (Promise (case inFlight s vid of [] \<Rightarrow> length (promises s) | q # _ \<Rightarrow> q))"
    and "consistent (snd (fetchAll (t # ts) vid s))"
    and "inFlight (snd (fetchAll (t # ts) vid s)) vid =
           [case inFlight s vid of [] \<Rightarrow> length (promises s) | q # _ \<Rightarrow> q]"
    and "extractions (snd (fetchAll (t # ts) vid s)) vid =
           extractions s vid + (if inFlight s vid = [] then 1 else 0)"
proof -
  let ?p = "case inFlight s vid of [] \<Rightarrow> length (promises s) | q # _ \<Rightarrow> q"
  have "fst (fetchAll (t # ts) vid s) = replicate (Suc (length ts)) (Promise ?p) \<and>
        consistent (snd (fetchAll (t # ts) vid s)) \<and>
        inFlight (snd (fetchAll (t # ts) vid s)) vid = [?p] \<and>
        extractions (snd (fetchAll (t # ts) vid s)) vid =
           extractions s vid + (if inFlight s vid = [] then 1 else 0)"
  proof (cases "inFlight s vid")
    case Nil
    have all: "fetchAll (t # ts) vid s =
      (replicate (Suc (length ts)) (Promise (length (promises s))), snd (fetchStreamUrl t vid s))"
      using c miss Nil by (rule fetchAll_cold)
    have "consistent (snd (fetchStreamUrl t vid s))" using c by (rule consistent_fetch)
    then show ?thesis
      using fetch_starts(3,4)[OF c miss Nil] Nil by (simp only: all fst_conv snd_conv) simp
  next
    case (Cons q qs)
    then have q: "q \<in> set (inFlight s vid)" by simp
    have one: "inFlight s vid = [q]" using c q by (rule inFlight_single)
    have all: "fetchAll (t # ts) vid s = (replicate (length (t # ts)) (Promise q), s)"
      using c q by (rule fetchAll_joins)
    show ?thesis using c one by (simp only: all fst_conv snd_conv) simp
  qed
  then show "fst (fetchAll (t # ts) vid s) = replicate (Suc (length ts)) (Promise ?p)"
    and "consistent (snd (fetchAll (t # ts) vid s))"
    and "inFlight (snd (fetchAll (t # ts) vid s)) vid = [?p]"
    and "extractions (snd (fetchAll (t # ts) vid s)) vid =
           extractions s vid + (if inFlight s vid = [] then 1 else 0)"
    by blast+
qed

section \<open>Concurrent requests for one identifier\<close>

lemma run_Nil: "run [] = initial"
  by (simp add: run_def)

lemma fetchAll_example:
  "fetchAll [0, 1, 2] ''dQw4w9WgXcQ'' initial =
     ([Promise 0, Promise 0, Promise 0],
      \<lparr>streamUrlCache = [], videoInfoCache = [],
        pendingStreamRequests = [(''dQw4w9WgXcQ'', 0)],
        promises = [(''dQw4w9WgXcQ'', None)]\<rparr>)"
  by (simp add: initial_def getCachedStreamUrl_def fetchStreamUrl_def truthy_def Let_def)

lemma streamOutcome_example:
  "streamOutcome (Inr [mp4_128, webm_256]) = Inr ''https://upstream/audio.webm''"
  by (simp add: streamOutcome_def bestAudioFormat_def filterFormats_audioonly_def
      higherBitrate_def bitrateOrZero_def truthy_def mp4_128_def webm_256_def Let_def)

text \<open>
  Claim C1. In every state a run of the server reaches, no identifier has more than one
  extraction in flight, and a call of \<open>fetchStreamUrl\<close> for an identifier whose extraction
  is in flight hands back that promise and changes nothing. When the cache has no live
  entry for \<open>vid\<close>, \<open>N = 1 + length ts\<close> calls of \<open>fetchStreamUrl(vid)\<close> made before the
  extraction settles all hand back one and the same promise \<open>p\<close>: the one already in
  flight, or else a new one, and then exactly one extraction has been started. That
  promise is the only one in flight for \<open>vid\<close>, still so between and after the calls,
  and no caller has an outcome yet; once \<open>ytdl.getInfo\<close> settles with \<open>r\<close>, every one of
  the \<open>N\<close> callers sees the same outcome \<open>streamOutcome r\<close>, the chosen URL or the error,
  and nothing is in flight for \<open>vid\<close>.
\<close>

theorem concurrent_requests_share_one_extraction:
  assumes miss: "fst (getCachedStreamUrl t vid (run evs)) = None"
  shows "let s = run evs;
             p = (case inFlight s vid of [] \<Rightarrow> length (promises s) | q # _ \<Rightarrow> q);
             fs = fst (fetchAll (t # ts) vid s);
             s1 = snd (fetchAll (t # ts) vid s);
             s2 = getInfoSettles now p r s1
         in fs = replicate (Suc (length ts)) (Promise p) \<and>
            extractions s1 vid = extractions s vid + (if inFlight s vid = [] then 1 else 0) \<and>
            inFlight s1 vid = [p] \<and>
            (\<forall>q. q \<in> set (inFlight s vid) \<longrightarrow> fetchStreamUrl t vid s = (Promise q, s)) \<and>
            (\<forall>v. length (inFlight s v) \<le> 1 \<and> length (inFlight s1 v) \<le> 1 \<and>
                 length (inFlight s2 v) \<le> 1) \<and>
            list_all (\<lambda>f. await s1 f = None) fs \<and>
            list_all (\<lambda>f. await s2 f = Some (streamOutcome r)) fs \<and>
            inFlight s2 vid = []"
proof -
  let ?s = "run evs"
  let ?p = "case inFlight ?s vid of [] \<Rightarrow> length (promises ?s) | q # _ \<Rightarrow> q"
  let ?fs = "fst (fetchAll (t # ts) vid ?s)"
  let ?s1 = "snd (fetchAll (t # ts) vid ?s)"
  let ?s2 = "getInfoSettles now ?p r ?s1"
  have c: "consistent ?s" by (rule consistent_run)
  note shared = fetchAll_shared[OF c miss, of ts]
  have c1: "consistent ?s1" by (rule shared(2))
  have c2: "consistent ?s2" using c1 by (rule consistent_settle)
  have p: "?p \<in> set (inFlight ?s1 vid)" by (simp only: shared(3)) simp
  have a: "?fs = replicate (Suc (length ts)) (Promise ?p)" by (rule shared(1))
  have b: "extractions ?s1 vid = extractions ?s vid + (if inFlight ?s vid = [] then 1 else 0)"
    by (rule shared(4))
  have d: "\<forall>q. q \<in> set (inFlight ?s vid) \<longrightarrow> fetchStreamUrl t vid ?s = (Promise q, ?s)"
    using fetch_joins[OF c] by blast
  have e: "\<forall>v. length (inFlight ?s v) \<le> 1 \<and> length (inFlight ?s1 v) \<le> 1 \<and>
                length (inFlight ?s2 v) \<le> 1"
    using inFlight_at_most_one[OF c] inFlight_at_most_one[OF c1] inFlight_at_most_one[OF c2]
    by blast
  have f: "list_all (\<lambda>f. await ?s1 f = None) ?fs"
    using inFlight_unsettled[OF p] by (simp only: a) (simp add: list_all_iff)
  have g: "list_all (\<lambda>f. await ?s2 f = Some (streamOutcome r)) ?fs"
    using settle_await[OF c1 p, of now r] by (simp only: a) (simp add: list_all_iff)
  have h: "inFlight ?s2 vid = []" using c1 p by (rule settle_idle)
  show ?thesis
    unfolding Let_def using a b shared(3) d e f g h by blast
qed

text \<open>
  The theorem on the server as started: three calls for \<open>dQw4w9WgXcQ\<close> at the times 0, 1
  and 2 hand back the promise 0 three times, one extraction has been started, and when
  it settles at time 5 with the two example formats the three callers see the URL of
  the one with the higher bitrate.
\<close>

theorem concurrent_requests_share_one_extraction_witness:
  "fst (fetchAll [0, 1, 2] ''dQw4w9WgXcQ'' (run [])) = [Promise 0, Promise 0, Promise 0] \<and>
   extractions (snd (fetchAll [0, 1, 2] ''dQw4w9WgXcQ'' (run []))) ''dQw4w9WgXcQ'' = 1 \<and>
   inFlight (snd (fetchAll [0, 1, 2] ''dQw4w9WgXcQ'' (run []))) ''dQw4w9WgXcQ'' = [0] \<and>
   list_all
     (\<lambda>f. await (getInfoSettles 5 0 (Inr [mp4_128, webm_256])
                   (snd (fetchAll [0, 1, 2] ''dQw4w9WgXcQ'' (run [])))) f =
           Some (Inr ''https://upstream/audio.webm''))
     [Promise 0, Promise 0, Promise 0]"
  using concurrent_requests_share_one_extraction
    [of 0 "''dQw4w9WgXcQ''" "[]" "[1, 2]" 5 "Inr [mp4_128, webm_256]"]
  unfolding Let_def run_Nil fetchAll_example streamOutcome_example
  by (simp add: initial_def getCachedStreamUrl_def getInfoSettles_def await_def inFlight_def
      extractions_def)


section \<open>Failed resolutions\<close>

lemma miss_without_entry:
  "map_of (streamUrlCache s) vid = None \<Longrightarrow> getCachedStreamUrl now vid s = (None, s)"
  by (simp add: getCachedStreamUrl_def)

lemma failure_keeps_cache:
  assumes "streamOutcome r = Inl e"
  shows "streamUrlCache (getInfoSettles now p r s) = streamUrlCache s"
  using assms by (simp add: getInfoSettles_def Let_def)

lemma failed_then_fresh:
  assumes c: "consistent s" and p: "p \<in> set (inFlight s vid)"
    and fail: "streamOutcome r = Inl e"
  shows "map_of (pendingStreamRequests s) vid = Some p"
    and "map_of (streamUrlCache (getInfoSettles now p r s)) vid = None"
    and "map_of (pendingStreamRequests (getInfoSettles now p r s)) vid = None"
    and "await (getInfoSettles now p r s) (Promise p) = Some (Inl e)"
    and "inFlight (getInfoSettles now p r s) vid = []"
    and "fst (fetchStreamUrl now' vid (getInfoSettles now p r s)) = Promise (length (promises s))"
    and "promises (snd (fetchStreamUrl now' vid (getInfoSettles now p r s))) =
           promises (getInfoSettles now p r s) @ [(vid, None)]"
    and "extractions (snd (fetchStreamUrl now' vid (getInfoSettles now p r s))) vid =
           extractions s vid + 1"
    and "inFlight (snd (fetchStreamUrl now' vid (getInfoSettles now p r s))) vid =
           [length (promises s)]"
    and "await (snd (fetchStreamUrl now' vid (getInfoSettles now p r s)))
           (Promise (length (promises s))) = None"
proof -
  let ?s1 = "getInfoSettles now p r s"
  let ?s2 = "snd (fetchStreamUrl now' vid ?s1)"
  have q: "p < length (promises s)" "promises s ! p = (vid, None)"
    using p by (simp_all add: mem_inFlight)
  have c1: "consistent ?s1" using c by (rule consistent_settle)
  show pend: "map_of (pendingStreamRequests s) vid = Some p"
    using inFlight_pending(1)[OF c p] .
  have "map_of (streamUrlCache s) vid = None" using inFlight_pending(2)[OF c p] .
  then show cache: "map_of (streamUrlCache ?s1) vid = None"
    by (simp add: failure_keeps_cache[OF fail])
  show "map_of (pendingStreamRequests ?s1) vid = None"
    by (simp add: settle_state(2)[OF c p] AList.delete_conv')
  show "await ?s1 (Promise p) = Some (Inl e)"
    using settle_await[OF c p, of now r] fail by simp
  show idle: "inFlight ?s1 vid = []" using c p by (rule settle_idle)
  have miss: "fst (getCachedStreamUrl now' vid ?s1) = None"
    by (simp add: miss_without_entry[OF cache])
  have len: "length (promises ?s1) = length (promises s)"
    by (simp add: settle_state(1)[OF c p])
  have ext: "extractions ?s1 vid = extractions s vid"
  proof -
    have "map fst ((promises s)[p := (vid, Some (streamOutcome r))]) = map fst (promises s)"
      using q by (simp add: map_update list_update_same_conv)
    then have "map fst (promises ?s1) = map fst (promises s)"
      by (simp add: settle_state(1)[OF c p])
    then have "length (filter (\<lambda>k. k = vid) (map fst (promises ?s1))) =
               length (filter (\<lambda>k. k = vid) (map fst (promises s)))" by simp
    then show ?thesis by (simp add: extractions_def filter_map o_def)
  qed
  show "fst (fetchStreamUrl now' vid ?s1) = Promise (length (promises s))"
    using fetch_starts(1)[OF c1 miss idle] len by simp
  show "promises ?s2 = promises ?s1 @ [(vid, None)]"
    using fetch_starts(2)[OF c1 miss idle] .
  show "extractions ?s2 vid = extractions s vid + 1"
    using fetch_starts(4)[OF c1 miss idle] ext by simp
  show fl: "inFlight ?s2 vid = [length (promises s)]"
    using fetch_starts(3)[OF c1 miss idle] len by simp
  have "length (promises s) \<in> set (inFlight ?s2 vid)" by (simp only: fl) simp
  then show "await ?s2 (Promise (length (promises s))) = None"
    by (rule inFlight_unsettled)
qed

text \<open>
  Claim C9. A settlement whose outcome is an error never writes to the stream-URL
  cache. When the extraction \<open>p\<close> in flight for \<open>vid\<close> fails with \<open>e\<close>, the cache is what
  it was and holds nothing for \<open>vid\<close>, the pending entry of \<open>vid\<close>, which was \<open>p\<close>, is
  gone, and the callers of \<open>p\<close> see \<open>e\<close>. A later call of \<open>fetchStreamUrl(vid)\<close> hands back
  neither a cached value nor the failed promise: it creates a new promise, one more
  extraction of \<open>vid\<close> has been started, it is the one in flight, and it has no outcome
  yet.
\<close>

theorem failed_resolution_leaves_no_trace:
  "(streamOutcome r = Inl e \<longrightarrow>
      streamUrlCache (getInfoSettles now q r (run evs)) = streamUrlCache (run evs)) \<and>
   (p \<in> set (inFlight (run evs) vid) \<and> streamOutcome r = Inl e \<longrightarrow>
      (let s = run evs;
           s1 = getInfoSettles now p r s;
           f = fst (fetchStreamUrl now' vid s1);
           s2 = snd (fetchStreamUrl now' vid s1)
       in map_of (pendingStreamRequests s) vid = Some p \<and>
          streamUrlCache s1 = streamUrlCache s \<and>
          map_of (streamUrlCache s1) vid = None \<and>
          map_of (pendingStreamRequests s1) vid = None \<and>
          await s1 (Promise p) = Some (Inl e) \<and>
          inFlight s1 vid = [] \<and>
          f = Promise (length (promises s)) \<and> f \<noteq> Promise p \<and>
          promises s2 = promises s1 @ [(vid, None)] \<and>
          extractions s2 vid = extractions s vid + 1 \<and>
          inFlight s2 vid = [length (promises s)] \<and>
          await s2 f = None))"
proof (intro conjI impI)
  assume "streamOutcome r = Inl e"
  then show "streamUrlCache (getInfoSettles now q r (run evs)) = streamUrlCache (run evs)"
    by (rule failure_keeps_cache)
next
  assume a: "p \<in> set (inFlight (run evs) vid) \<and> streamOutcome r = Inl e"
  have c: "consistent (run evs)" by (rule consistent_run)
  have p: "p \<in> set (inFlight (run evs) vid)" and fail: "streamOutcome r = Inl e"
    using a by simp_all
  have lt: "p < length (promises (run evs))" using p by (simp add: mem_inFlight)
  note f = failed_then_fresh[OF c p fail]
  show "let s = run evs;
           s1 = getInfoSettles now p r s;
           f = fst (fetchStreamUrl now' vid s1);
           s2 = snd (fetchStreamUrl now' vid s1)
       in map_of (pendingStreamRequests s) vid = Some p \<and>
          streamUrlCache s1 = streamUrlCache s \<and>
          map_of (streamUrlCache s1) vid = None \<and>
          map_of (pendingStreamRequests s1) vid = None \<and>
          await s1 (Promise p) = Some (Inl e) \<and>
          inFlight s1 vid = [] \<and>
          f = Promise (length (promises s)) \<and> f \<noteq> Promise p \<and>
          promises s2 = promises s1 @ [(vid, None)] \<and>
          extractions s2 vid = extractions s vid + 1 \<and>
          inFlight s2 vid = [length (promises s)] \<and>
          await s2 f = None"
    unfolding Let_def f(6)
    using f(1,2,3,4,5,7,8,9,10) failure_keeps_cache[OF fail] lt
    by simp
qed

lemma run_example:
  "run [FetchStreamUrl 0 ''dQw4w9WgXcQ''] =
     \<lparr>streamUrlCache = [], videoInfoCache = [],
       pendingStreamRequests = [(''dQw4w9WgXcQ'', 0)],
       promises = [(''dQw4w9WgXcQ'', None)]\<rparr>"
  by (simp add: run_def initial_def getCachedStreamUrl_def fetchStreamUrl_def truthy_def Let_def)

lemma streamOutcome_failure: "streamOutcome (Inl e) = Inl e"
  by (simp add: streamOutcome_def)

text \<open>
  The theorem on the run of one request for \<open>dQw4w9WgXcQ\<close> whose extraction is rejected
  at time 5 with \<open>Video unavailable\<close>: the cache stays empty, the pending map is empty
  again, the caller sees the error, and a request at time 9 is handed the new promise 1.
\<close>

theorem failed_resolution_leaves_no_trace_witness:
  "streamUrlCache (getInfoSettles 5 0 (Inl (newError ''Video unavailable''))
      (run [FetchStreamUrl 0 ''dQw4w9WgXcQ''])) = [] \<and>
   pendingStreamRequests (getInfoSettles 5 0 (Inl (newError ''Video unavailable''))
      (run [FetchStreamUrl 0 ''dQw4w9WgXcQ''])) = [] \<and>
   await (getInfoSettles 5 0 (Inl (newError ''Video unavailable''))
      (run [FetchStreamUrl 0 ''dQw4w9WgXcQ''])) (Promise 0) =
     Some (Inl (newError ''Video unavailable'')) \<and>
   fst (fetchStreamUrl 9 ''dQw4w9WgXcQ''
      (getInfoSettles 5 0 (Inl (newError ''Video unavailable''))
         (run [FetchStreamUrl 0 ''dQw4w9WgXcQ'']))) = Promise 1 \<and>
   extractions (snd (fetchStreamUrl 9 ''dQw4w9WgXcQ''
      (getInfoSettles 5 0 (Inl (newError ''Video unavailable''))
         (run [FetchStreamUrl 0 ''dQw4w9WgXcQ''])))) ''dQw4w9WgXcQ'' = 2"
  using failed_resolution_leaves_no_trace
    [of "Inl (newError ''Video unavailable'')" "newError ''Video unavailable''" 5 0
        "[FetchStreamUrl 0 ''dQw4w9WgXcQ'']" 0 "''dQw4w9WgXcQ''" 9]
  unfolding Let_def run_example streamOutcome_failure
  by (simp add: getInfoSettles_def streamOutcome_failure getCachedStreamUrl_def
      fetchStreamUrl_def truthy_def await_def inFlight_def extractions_def Let_def)

end
